theory Spec2Isabelle
  imports Main "HOL-Library.Word"
begin

unbundle bit_operations_syntax

section \<open>Machine words and the 64 x 64 -> 128 multiplication (umul128.h, common.h)\<close>

type_synonym u8 = "8 word"
type_synonym u32 = "32 word"
type_synonym u64 = "64 word"
type_synonym u128 = "128 word"

text \<open>
  \<^verbatim>\<open>umul128(a, b, &hi)\<close>: the product is formed in an \<^verbatim>\<open>unsigned __int128\<close>; the low
  64 bits are returned and the high 64 bits stored through the pointer. The model
  returns the pair \<open>(lo, hi)\<close>.
\<close>

definition umul128 :: "u64 \<Rightarrow> u64 \<Rightarrow> u64 \<times> u64" where
  "umul128 a b =
     (let product = (ucast a :: u128) * (ucast b :: u128)
      in (ucast product, ucast (drop_bit 64 product)))"

section \<open>The mixer (Nasam1024.h, nasam)\<close>

definition nasam :: "u64 \<Rightarrow> u64" where
  "nasam v0 =
     (let v1 = v0 * 0x9E6F1D9BB2D6C165;
          v2 = v1 XOR word_rotr 26 v1;
          v3 = v2 * 0x9E6F1D9BB2D6C165;
          v4 = v3 XOR (word_rotr 47 v3 XOR word_rotr 21 v3);
          v5 = v4 * 0x9FB21C651E98DF25
      in v5 XOR drop_bit 28 v5)"

section \<open>The 1024-bit additive counter (Nasam1024.h, class Counter_1024)\<close>

text \<open>
  \<^verbatim>\<open>std::array<uint64_t, 16>\<close> is a list of limbs, limb 0 least significant; the
  class invariant is that both lists have 16 elements.
\<close>

record Counter_1024 =
  state :: "u64 list"
  increment :: "u64 list"

definition counter_ok :: "Counter_1024 \<Rightarrow> bool" where
  "counter_ok c \<longleftrightarrow> length (state c) = 16 \<and> length (increment c) = 16"

text \<open>
  The carry loop of \<^verbatim>\<open>add_carry\<close>:
  \<^verbatim>\<open>while (++index < 16) { if (++x[index] != 0) return; }\<close>
\<close>

function carry_loop :: "u64 list \<Rightarrow> nat \<Rightarrow> u64 list" where
  "carry_loop x index =
     (let index' = index + 1
      in if index' < 16
         then (let x' = x[index' := x ! index' + 1]
               in if x' ! index' \<noteq> 0 then x' else carry_loop x' index')
         else x)"
  by pat_completeness auto
termination
  by (relation "measure (\<lambda>(x, index). 16 - index)") auto

declare carry_loop.simps [simp del]

text \<open>
  \<^verbatim>\<open>add_carry(x, incr, index)\<close>: nothing for an index past the last limb; otherwise
  add \<open>incr\<close> into limb \<open>index\<close> and, when that addition wrapped, run the carry loop.
\<close>

definition add_carry :: "u64 list \<Rightarrow> u64 \<Rightarrow> nat \<Rightarrow> u64 list" where
  "add_carry x incr index =
     (if index \<ge> 16 then x
      else (let x' = x[index := x ! index + incr]
            in if x' ! index < incr then carry_loop x' index else x'))"

text \<open>\<^verbatim>\<open>operator++\<close>: \<open>state += increment\<close>, limb by limb.\<close>

definition plus_plus :: "Counter_1024 \<Rightarrow> Counter_1024" where
  "plus_plus c =
     c\<lparr>state := fold (\<lambda>i x. add_carry x (increment c ! i) i) [0..<16] (state c)\<rparr>"

text \<open>\<^verbatim>\<open>operator+=(nblocks)\<close>: \<open>state += nblocks * increment\<close>.\<close>

definition plus_assign_step :: "u64 list \<Rightarrow> u64 \<Rightarrow> nat \<Rightarrow> u64 list \<Rightarrow> u64 list" where
  "plus_assign_step inc nblocks i x =
     (let (product_lo, product_hi) = umul128 (inc ! i) nblocks;
          x1 = add_carry x product_lo i
      in if i \<le> 14 then add_carry x1 product_hi (i + 1) else x1)"

definition plus_assign :: "u64 \<Rightarrow> Counter_1024 \<Rightarrow> Counter_1024" where
  "plus_assign nblocks c =
     (if nblocks = 0 then c
      else if nblocks = 1 then plus_plus c
      else c\<lparr>state := fold (plus_assign_step (increment c) nblocks) [0..<16] (state c)\<rparr>)"

text \<open>
  \<^verbatim>\<open>big_jump(step)\<close>: \<open>state += step * increment\<close> with a 16-limb step; zero limbs
  of the step are skipped, and limb pairs with \<open>i + j \<ge> 16\<close> are not computed.
\<close>

definition big_jump_inner :: "u64 list \<Rightarrow> u64 \<Rightarrow> nat \<Rightarrow> nat \<Rightarrow> u64 list \<Rightarrow> u64 list" where
  "big_jump_inner inc step_i i j temp =
     (if i + j < 16
      then (let (lo, hi) = umul128 (inc ! j) step_i
            in add_carry (add_carry temp lo (i + j)) hi (i + j + 1))
      else temp)"

definition big_jump_outer :: "u64 list \<Rightarrow> u64 list \<Rightarrow> nat \<Rightarrow> u64 list \<Rightarrow> u64 list" where
  "big_jump_outer inc step i temp =
     (if step ! i = 0 then temp
      else fold (big_jump_inner inc (step ! i) i) [0..<16] temp)"

definition big_jump :: "u64 list \<Rightarrow> Counter_1024 \<Rightarrow> Counter_1024" where
  "big_jump step c =
     c\<lparr>state := fold (big_jump_outer (increment c) step) [0..<16] (state c)\<rparr>"

text \<open>
  \<^verbatim>\<open>initialize_increment\<close>: limb 0 is the golden-ratio constant, limb \<open>i\<close> the mix of
  limb \<open>i - 1\<close>. The constructor starts from the all-zero state.
\<close>

definition INC :: u64 where
  "INC = 0x9e3779b97f4a7c15"

definition initialize_increment :: "u64 list \<Rightarrow> u64 list" where
  "initialize_increment inc0 =
     fold (\<lambda>i inc. inc[i := nasam (inc ! (i - 1))]) [1..<16] (inc0[0 := INC])"

definition new_Counter_1024 :: Counter_1024 where
  "new_Counter_1024 =
     \<lparr>state = replicate 16 0, increment = initialize_increment (replicate 16 0)\<rparr>"

section \<open>The statistical engine (Nasam1024.h, class Nasam1024)\<close>

text \<open>
  The engine owns the counter, a buffer of 8 words and \<^verbatim>\<open>int buffer_position\<close>
  (a 32-bit signed integer; 8 means that the buffer is empty).
\<close>

record Nasam1024 =
  counter :: Counter_1024
  nasam_buffer :: "u64 list"
  buffer_position :: "32 word"

definition nasam_ok :: "Nasam1024 \<Rightarrow> bool" where
  "nasam_ok g \<longleftrightarrow> counter_ok (counter g) \<and> length (nasam_buffer g) = 8 \<and> buffer_position g \<le> 8"

text \<open>\<^verbatim>\<open>refill_buffer\<close>: advance the counter once, mix the upper eight limbs.\<close>

definition nasam_refill_buffer :: "Nasam1024 \<Rightarrow> Nasam1024" where
  "nasam_refill_buffer g =
     (let c = plus_plus (counter g)
      in g\<lparr>counter := c,
           nasam_buffer := fold (\<lambda>i b. b[i := nasam (state c ! (i + 8))]) [0..<8] (nasam_buffer g),
           buffer_position := 0\<rparr>)"

text \<open>\<^verbatim>\<open>operator()\<close>: the value returned and the engine afterwards.\<close>

definition nasam_next :: "Nasam1024 \<Rightarrow> u64 \<times> Nasam1024" where
  "nasam_next g =
     (let g1 = (if buffer_position g = 8 then nasam_refill_buffer g else g)
      in (nasam_buffer g1 ! unat (buffer_position g1),
          g1\<lparr>buffer_position := buffer_position g1 + 1\<rparr>))"

text \<open>
  \<^verbatim>\<open>discard(n)\<close>. \<^verbatim>\<open>remaining_in_buffer\<close> is computed in \<^verbatim>\<open>uint64_t\<close> from the
  converted \<^verbatim>\<open>int\<close>; \<^verbatim>\<open>static_cast<int>\<close> keeps the low 32 bits.
\<close>

definition nasam_discard :: "u64 \<Rightarrow> Nasam1024 \<Rightarrow> Nasam1024" where
  "nasam_discard n g =
     (let remaining_in_buffer = (8 :: u64) - scast (buffer_position g)
      in if n \<le> remaining_in_buffer
         then g\<lparr>buffer_position := buffer_position g + ucast n\<rparr>
         else (let n1 = n - remaining_in_buffer;
                   full_blocks_to_skip = n1 div 8;
                   outputs_in_final_block = n1 mod 8;
                   g1 = (if full_blocks_to_skip > 0
                         then g\<lparr>counter := plus_assign full_blocks_to_skip (counter g)\<rparr>
                         else g);
                   g2 = nasam_refill_buffer g1
               in g2\<lparr>buffer_position := ucast outputs_in_final_block\<rparr>))"

text \<open>Calling \<^verbatim>\<open>operator()\<close> \<open>k + 1\<close> times and keeping the last result.\<close>

fun nasam_last_of_nexts :: "nat \<Rightarrow> Nasam1024 \<Rightarrow> u64 \<times> Nasam1024" where
  "nasam_last_of_nexts 0 g = nasam_next g"
| "nasam_last_of_nexts (Suc k) g = nasam_last_of_nexts k (snd (nasam_next g))"

text \<open>
  The output stream that a state determines: the value that the \<open>i\<close>-th call of
  \<^verbatim>\<open>operator()\<close> from now will return (\<open>i = 0\<close> for the next call). Slot \<open>q\<close>,
  counted from the start of the current buffer, lies in the buffer while \<open>q < 8\<close> and
  otherwise in the block that a later refill produces.
\<close>

definition nasam_future :: "Nasam1024 \<Rightarrow> nat \<Rightarrow> u64" where
  "nasam_future g i =
     (let q = unat (buffer_position g) + i
      in if q < 8 then nasam_buffer g ! q
         else nasam (state ((plus_plus ^^ ((q - 8) div 8 + 1)) (counter g)) ! (q mod 8 + 8)))"

section \<open>The cryptographic engine (RNG_csprng.h, class csprng)\<close>

text \<open>
  The exceptions of the class, one constructor for each message thrown.
\<close>

datatype error =
    Exhausted            \<comment> \<open>"csprng: key/nonce pair exhausted"\<close>
  | DiscardOverflow      \<comment> \<open>"csprng: block_counter overflow during discard"\<close>
  | BadMagic             \<comment> \<open>"csprng: invalid or corrupted stream (bad magic)"\<close>
  | UnsupportedVersion   \<comment> \<open>"csprng: unsupported version"\<close>
  | CorruptedWordIndex   \<comment> \<open>"csprng: corrupted word_index"\<close>
  | StreamReadError      \<comment> \<open>"csprng: stream read error during deserialization"\<close>
  | MidBlockAtZero       \<comment> \<open>"csprng: cannot restore mid-block state at block_counter == 0"\<close>

text \<open>
  The key is eight 32-bit words, the nonce two, the buffer a 64-byte block read as eight
  64-bit words, \<^verbatim>\<open>word_index\<close> a \<^verbatim>\<open>size_t\<close>.
\<close>

record csprng =
  key :: "u32 list"
  nonce :: "u32 list"
  block_counter :: u64
  buffer :: "u64 list"
  word_index :: u64

definition csprng_ok :: "csprng \<Rightarrow> bool" where
  "csprng_ok s \<longleftrightarrow> length (key s) = 8 \<and> length (nonce s) = 2 \<and> length (buffer s) = 8"

text \<open>
  The block function \<^verbatim>\<open>permute_block(buffer, build_state(key, nonce, block_counter))\<close>
  belongs to ChaChaCore.h, an external primitive that is not modelled: it is a parameter
  of every operation that generates a block, mapping key, nonce and block counter to the
  eight 64-bit words of the block.
\<close>

type_synonym permutation = "u32 list \<Rightarrow> u32 list \<Rightarrow> u64 \<Rightarrow> u64 list"

text \<open>
  An operation that can throw returns the exception or its result, together with the
  engine as the operation leaves it (a thrown exception does not undo the assignments
  made before it).
\<close>

type_synonym 'a outcome = "(error + 'a) \<times> csprng"

definition refill_buffer :: "permutation \<Rightarrow> csprng \<Rightarrow> unit outcome" where
  "refill_buffer P s =
     (let s' = s\<lparr>buffer := P (key s) (nonce s) (block_counter s),
                 word_index := 0,
                 block_counter := block_counter s + 1\<rparr>
      in if block_counter s' = 0 then (Inl Exhausted, s') else (Inr (), s'))"

text \<open>The constructor from key, nonce and initial counter, and \<^verbatim>\<open>reseed\<close>.\<close>

definition new_csprng :: "permutation \<Rightarrow> u32 list \<Rightarrow> u32 list \<Rightarrow> u64 \<Rightarrow> unit outcome" where
  "new_csprng P k n initial_counter =
     refill_buffer P \<lparr>key = k, nonce = n, block_counter = initial_counter,
                      buffer = replicate 8 0, word_index = 8\<rparr>"

definition reseed :: "permutation \<Rightarrow> u32 list \<Rightarrow> u32 list \<Rightarrow> csprng \<Rightarrow> unit outcome" where
  "reseed P k n s = refill_buffer P (s\<lparr>key := k, nonce := n, block_counter := 0\<rparr>)"

text \<open>\<^verbatim>\<open>operator()\<close>.\<close>

definition csprng_next :: "permutation \<Rightarrow> csprng \<Rightarrow> u64 outcome" where
  "csprng_next P s =
     (if word_index s \<ge> 8
      then (case refill_buffer P s of
              (Inl e, s') \<Rightarrow> (Inl e, s')
            | (Inr _, s') \<Rightarrow>
                (Inr (buffer s' ! unat (word_index s')), s'\<lparr>word_index := word_index s' + 1\<rparr>))
      else (Inr (buffer s ! unat (word_index s)), s\<lparr>word_index := word_index s + 1\<rparr>))"

text \<open>\<^verbatim>\<open>discard(n)\<close>.\<close>

definition discard :: "permutation \<Rightarrow> u64 \<Rightarrow> csprng \<Rightarrow> unit outcome" where
  "discard P n s =
     (if n = 0 then (Inr (), s)
      else (let remaining = 8 - word_index s
            in if n < remaining then (Inr (), s\<lparr>word_index := word_index s + n\<rparr>)
               else (let n1 = n - remaining;
                         s1 = s\<lparr>word_index := 8\<rparr>;
                         full_blocks = n1 div 8;
                         remainder = n1 mod 8
                     in if full_blocks > 0 \<and> block_counter s1 > - 1 - full_blocks
                        then (Inl DiscardOverflow, s1)
                        else (let s2 = (if full_blocks > 0
                                        then s1\<lparr>block_counter := block_counter s1 + full_blocks\<rparr>
                                        else s1)
                              in if remainder \<noteq> 0
                                 then (case refill_buffer P s2 of
                                         (Inl e, s3) \<Rightarrow> (Inl e, s3)
                                       | (Inr _, s3) \<Rightarrow> (Inr (), s3\<lparr>word_index := remainder\<rparr>))
                                 else (Inr (), s2)))))"

text \<open>
  Calling \<^verbatim>\<open>operator()\<close> \<open>k + 1\<close> times and keeping the last result; an exception ends
  the sequence.
\<close>

fun last_of_nexts :: "permutation \<Rightarrow> nat \<Rightarrow> csprng \<Rightarrow> u64 outcome" where
  "last_of_nexts P 0 s = csprng_next P s"
| "last_of_nexts P (Suc k) s =
     (case csprng_next P s of
        (Inl e, s') \<Rightarrow> (Inl e, s')
      | (Inr _, s') \<Rightarrow> last_of_nexts P k s')"

text \<open>\<^verbatim>\<open>discard(n)\<close> followed by \<^verbatim>\<open>operator()\<close>.\<close>

definition discard_then_next :: "permutation \<Rightarrow> u64 \<Rightarrow> csprng \<Rightarrow> u64 outcome" where
  "discard_then_next P n s =
     (case discard P n s of
        (Inl e, s') \<Rightarrow> (Inl e, s')
      | (Inr _, s') \<Rightarrow> csprng_next P s')"

text \<open>The value an outcome yields, if it yields one.\<close>

fun yielded :: "'a outcome \<Rightarrow> 'a option" where
  "yielded (Inl e, s) = None"
| "yielded (Inr v, s) = Some v"

text \<open>
  The output stream that a state determines: the value of the \<open>i\<close>-th call of
  \<^verbatim>\<open>operator()\<close> from now, or \<open>None\<close> when that call or an earlier one throws because
  the block with counter \<open>2 ^ 64 - 1\<close> has to be generated.
\<close>

definition csprng_future :: "permutation \<Rightarrow> csprng \<Rightarrow> nat \<Rightarrow> u64 option" where
  "csprng_future P s i =
     (let q = unat (word_index s) + i
      in if q < 8 then Some (buffer s ! q)
         else (let b = unat (block_counter s) + (q - 8) div 8
               in if b \<ge> 2 ^ 64 - 1 then None
                  else Some (P (key s) (nonce s) (of_nat b) ! (q mod 8))))"

text \<open>\<^verbatim>\<open>operator==\<close>.\<close>

definition csprng_eq :: "csprng \<Rightarrow> csprng \<Rightarrow> bool" where
  "csprng_eq lhs rhs =
     (let key_diff = fold (\<lambda>i d. d OR (key lhs ! i XOR key rhs ! i)) [0..<8] (0 :: u32);
          state_match = (nonce lhs = nonce rhs \<and> block_counter lhs = block_counter rhs
                         \<and> word_index lhs = word_index rhs)
      in if key_diff \<noteq> 0 \<or> \<not> state_match then False
         else if word_index lhs < 8
         then (let buffer_diff =
                     fold (\<lambda>i d. d OR (buffer lhs ! i XOR buffer rhs ! i)) [0..<8] (0 :: u64)
               in buffer_diff = 0)
         else True)"

subsection \<open>Serialization\<close>

text \<open>Little-endian bytes of a word, as the \<^verbatim>\<open>reinterpret_cast\<close>s of the stream operators
  read and write them (common.h asserts little-endian byte order).\<close>

fun le_bytes :: "nat \<Rightarrow> 'a::len word \<Rightarrow> u8 list" where
  "le_bytes 0 w = []"
| "le_bytes (Suc n) w = ucast w # le_bytes n (drop_bit 8 w)"

fun of_le_bytes :: "u8 list \<Rightarrow> 'a::len word" where
  "of_le_bytes [] = 0"
| "of_le_bytes (b # bs) = ucast b OR push_bit 8 (of_le_bytes bs)"

fun words32 :: "nat \<Rightarrow> u8 list \<Rightarrow> u32 list" where
  "words32 0 bs = []"
| "words32 (Suc k) bs = of_le_bytes (take 4 bs) # words32 k (drop 4 bs)"

text \<open>\<^verbatim>\<open>static constexpr char magic[8] = "csprng"\<close>: six letters and two zero bytes.\<close>

definition magic :: "u8 list" where
  "magic = [0x63, 0x73, 0x70, 0x72, 0x6E, 0x67, 0, 0]"

text \<open>\<^verbatim>\<open>operator<<\<close>: the 65-byte record.\<close>

definition serialize :: "csprng \<Rightarrow> u8 list" where
  "serialize rng =
     magic @ [1]
     @ take 32 (concat (map (le_bytes 4) (key rng)))
     @ take 8 (concat (map (le_bytes 4) (nonce rng)))
     @ le_bytes 8 (block_counter rng)
     @ [ucast (word_index rng)]
     @ replicate 7 0"

text \<open>
  The reader tests the magic with \<^verbatim>\<open>std::memcmp(magic, "csprng", 8)\<close>. The literal
  \<^verbatim>\<open>"csprng"\<close> is an array of seven bytes, six letters and the terminating zero:
\<close>

definition csprng_literal :: "u8 list" where
  "csprng_literal = [0x63, 0x73, 0x70, 0x72, 0x6E, 0x67, 0]"

text \<open>
  The input stream: the characters not yet read and the fail state that \<^verbatim>\<open>!is\<close> tests.
  \<^verbatim>\<open>is.read(target, n)\<close> stores the characters it can extract over the start of the
  target, whose old contents are its second argument, and sets the fail state when fewer
  than \<open>n\<close> are left; \<^verbatim>\<open>is.get()\<close> sets it when none is left. Neither reads anything
  from a stream that has failed.
\<close>

type_synonym istream = "u8 list \<times> bool"

definition stream_read :: "nat \<Rightarrow> u8 list \<Rightarrow> istream \<Rightarrow> u8 list \<times> istream" where
  "stream_read n target inp =
     (case inp of (cs, failed) \<Rightarrow>
        if failed then (target, (cs, True))
        else if length cs < n then (cs @ drop (length cs) target, ([], True))
        else (take n cs, (drop n cs, False)))"

definition stream_get :: "istream \<Rightarrow> u8 option \<times> istream" where
  "stream_get inp =
     (case inp of (cs, failed) \<Rightarrow>
        if failed then (None, (cs, True))
        else (case cs of [] \<Rightarrow> (None, ([], True)) | c # cs' \<Rightarrow> (Some c, (cs', False))))"

text \<open>
  \<^verbatim>\<open>operator>>\<close> into the engine \<open>rng\<close>, from the bytes \<open>bs\<close> left in the stream; the
  result is the exception or success, and the engine as the operator leaves it. Key, nonce
  and block counter are read straight into the engine and the word index is assigned before
  the later tests, so an exception thrown after them leaves these fields overwritten and
  the buffer as it was. The three reads are not tested, so a record cut short there is
  reported at the word index.

  The magic test compares eight bytes although the literal has seven: the eighth byte
  compared is whatever the program image holds after the literal. It is the parameter
  \<open>past_literal\<close> of the model.
\<close>

definition deserialize :: "permutation \<Rightarrow> u8 \<Rightarrow> csprng \<Rightarrow> u8 list \<Rightarrow> unit outcome" where
  "deserialize P past_literal rng bs =
     (let (magic_read, is1) = stream_read 8 (replicate 8 0) (bs, False)
      in if snd is1 \<or> magic_read \<noteq> csprng_literal @ [past_literal] then (Inl BadMagic, rng)
         else (let (version, is2) = stream_get is1
               in if snd is2 \<or> version \<noteq> Some 1 then (Inl UnsupportedVersion, rng)
                  else (let (key_bytes, is3) =
                              stream_read 32 (concat (map (le_bytes 4) (key rng))) is2;
                            (nonce_bytes, is4) =
                              stream_read 8 (concat (map (le_bytes 4) (nonce rng))) is3;
                            (counter_bytes, is5) =
                              stream_read 8 (le_bytes 8 (block_counter rng)) is4;
                            rng1 = rng\<lparr>key := words32 8 key_bytes,
                                       nonce := words32 2 nonce_bytes,
                                       block_counter := of_le_bytes counter_bytes\<rparr>;
                            (idx, is6) = stream_get is5
                        in if snd is6 \<or> (case idx of None \<Rightarrow> True | Some b \<Rightarrow> b > 8)
                           then (Inl CorruptedWordIndex, rng1)
                           else (let rng2 = rng1\<lparr>word_index := ucast (the idx)\<rparr>;
                                     (padding, is7) = stream_read 7 (replicate 7 0) is6
                                 in if snd is7 then (Inl StreamReadError, rng2)
                                    else if word_index rng2 < 8
                                    then (let saved_counter = block_counter rng2
                                          in if saved_counter = 0 then (Inl MidBlockAtZero, rng2)
                                             else (case refill_buffer P
                                                          (rng2\<lparr>block_counter := saved_counter - 1\<rparr>) of
                                                     (Inl e, rng3) \<Rightarrow> (Inl e, rng3)
                                                   | (Inr _, rng3) \<Rightarrow>
                                                       (Inr (),
                                                        rng3\<lparr>block_counter := saved_counter,
                                                             word_index := ucast (the idx)\<rparr>)))
                                    else (Inr (), rng2)))))"

text \<open>
  The engines that the operations can produce: construction that did not throw, then
  \<^verbatim>\<open>operator()\<close>, \<^verbatim>\<open>discard\<close>, \<^verbatim>\<open>reseed\<close> and \<^verbatim>\<open>operator>>\<close>, whether they return or
  throw.
\<close>

inductive reachable :: "permutation \<Rightarrow> u8 \<Rightarrow> csprng \<Rightarrow> bool"
  for P :: permutation and past_literal :: u8 where
  constructed: "new_csprng P k n c0 = (Inr (), s) \<Longrightarrow> length k = 8 \<Longrightarrow> length n = 2 \<Longrightarrow>
     reachable P past_literal s"
| after_next: "reachable P past_literal s \<Longrightarrow> reachable P past_literal (snd (csprng_next P s))"
| after_discard: "reachable P past_literal s \<Longrightarrow> reachable P past_literal (snd (discard P n s))"
| after_reseed: "reachable P past_literal s \<Longrightarrow> length k = 8 \<Longrightarrow> length n = 2 \<Longrightarrow>
     reachable P past_literal (snd (reseed P k n s))"
| after_restore: "reachable P past_literal r \<Longrightarrow>
     reachable P past_literal (snd (deserialize P past_literal r bs))"

text \<open>The results of the next \<open>k\<close> calls of \<^verbatim>\<open>operator()\<close>, an exception ending the list.\<close>

fun future_outputs :: "permutation \<Rightarrow> nat \<Rightarrow> csprng \<Rightarrow> (error + u64) list" where
  "future_outputs P 0 s = []"
| "future_outputs P (Suc k) s =
     (case csprng_next P s of
        (Inl e, s') \<Rightarrow> [Inl e]
      | (Inr v, s') \<Rightarrow> Inr v # future_outputs P k s')"

text \<open>A block function for concrete instances: word \<open>i\<close> of block \<open>c\<close> is \<open>8 * c + i\<close>
  plus the first key and nonce words.\<close>

definition sample_permutation :: permutation where
  "sample_permutation k n c =
     map (\<lambda>i. 8 * c + of_nat i + ucast (k ! 0) + ucast (n ! 0)) [0..<8]"

section \<open>Bounded sampling (RNG_csprng.h and RNG_random_device.h, unbiased)\<close>

text \<open>
  The two member functions have the same text and differ only in the \<^verbatim>\<open>draw64\<close> they
  call. The model takes the raw draws that the source delivers as a list, each
  \<^verbatim>\<open>draw64()\<close> taking the next one; the result is the value returned and the draws not
  consumed, or \<open>None\<close> when the draws end before the call returns.

  The rejection loop \<^verbatim>\<open>while (l < t) { x = draw64(); l = umul128(x, range, &h); }\<close>
  (\<open>range64\<close> is the source's \<^verbatim>\<open>range\<close>):
\<close>

fun redraw :: "u64 \<Rightarrow> u64 \<Rightarrow> u64 \<times> u64 \<Rightarrow> u64 list \<Rightarrow> ((u64 \<times> u64) \<times> u64 list) option" where
  "redraw range64 t (l, h) [] = (if l < t then None else Some ((l, h), []))"
| "redraw range64 t (l, h) (x # ds) =
     (if l < t then redraw range64 t (umul128 x range64) ds else Some ((l, h), x # ds))"

definition unbiased :: "u64 \<Rightarrow> u64 \<Rightarrow> u64 list \<Rightarrow> (u64 \<times> u64 list) option" where
  "unbiased lower_bound0 upper_bound0 ds =
     (let (lower_bound, upper_bound) =
            (if lower_bound0 > upper_bound0 then (upper_bound0, lower_bound0)
             else (lower_bound0, upper_bound0))
      in if lower_bound = upper_bound then Some (lower_bound, ds)
         else (let range64 = upper_bound - lower_bound + 1
               in if range64 = 0
                  then (case ds of [] \<Rightarrow> None | x # ds' \<Rightarrow> Some (x, ds'))
                  else (case ds of
                          [] \<Rightarrow> None
                        | x # ds' \<Rightarrow>
                            (let (l, h) = umul128 x range64
                             in if l < range64
                                then (let t = (- 1 - range64 + 1) mod range64
                                      in case redraw range64 t (l, h) ds' of
                                           None \<Rightarrow> None
                                         | Some ((l', h'), rest) \<Rightarrow> Some (lower_bound + h', rest))
                                else Some (lower_bound + h, ds')))))"

text \<open>The value that a single raw draw yields, if the draw is accepted.\<close>

definition unbiased_of_draw :: "u64 \<Rightarrow> u64 \<Rightarrow> u64 \<Rightarrow> u64 option" where
  "unbiased_of_draw lo hi x = map_option fst (unbiased lo hi [x])"

section \<open>The value of a limb vector\<close>

text \<open>A limb vector read as a natural number, limb 0 least significant.\<close>

fun val :: "u64 list \<Rightarrow> nat" where
  "val [] = 0"
| "val (x # xs) = unat x + 2 ^ 64 * val xs"

section \<open>Facts about limb vectors\<close>

lemma val_bound: "val xs < 2 ^ (64 * length xs)"
proof (induction xs)
  case Nil
  show ?case by simp
next
  case (Cons x xs)
  have "unat x < 2 ^ 64" using unsigned_less [of x] by simp
  moreover have "val xs + 1 \<le> 2 ^ (64 * length xs)" using Cons.IH by simp
  then have "2 ^ 64 * (val xs + 1) \<le> (2::nat) ^ 64 * 2 ^ (64 * length xs)"
    by (rule mult_le_mono2)
  ultimately show ?case by (simp add: power_add)
qed

lemma val_append: "val (xs @ ys) = val xs + 2 ^ (64 * length xs) * val ys"
  by (induction xs) (simp_all add: power_add algebra_simps)

lemma val_update:
  "i < length xs \<Longrightarrow> val (xs[i := w]) + unat (xs ! i) * 2 ^ (64 * i) = val xs + unat w * 2 ^ (64 * i)"
proof (induction xs arbitrary: i)
  case Nil
  then show ?case by simp
next
  case (Cons x xs)
  show ?case
  proof (cases i)
    case 0
    then show ?thesis by simp
  next
    case (Suc j)
    with Cons.prems have j: "j < length xs" by simp
    have "2 ^ 64 * (val (xs[j := w]) + unat (xs ! j) * 2 ^ (64 * j))
        = 2 ^ 64 * (val xs + unat w * 2 ^ (64 * j))"
      using Cons.IH [OF j] by simp
    then show ?thesis using Suc by (simp add: algebra_simps power_add)
  qed
qed

lemma val_take_Suc:
  "k < length xs \<Longrightarrow> val (take (Suc k) xs) = val (take k xs) + unat (xs ! k) * 2 ^ (64 * k)"
  by (simp add: take_Suc_conv_app_nth val_append min_def)

lemma digits_unique:
  fixes a b m p q :: nat
  assumes "a < m" "b < m" "a + m * p = b + m * q"
  shows "a = b \<and> p = q"
proof -
  have "(a + m * p) mod m = (b + m * q) mod m" using assms(3) by (rule arg_cong)
  with assms(1,2) have ab: "a = b" by simp
  with assms have "m * p = m * q" by simp
  with assms(1) ab show ?thesis by simp
qed

lemma val_inj: "length xs = length ys \<Longrightarrow> val xs = val ys \<Longrightarrow> xs = ys"
proof (induction xs ys rule: list_induct2)
  case Nil
  show ?case by simp
next
  case (Cons x xs y ys)
  have bx: "unat x < 2 ^ 64" and by': "unat y < 2 ^ 64"
    using unsigned_less [of x] unsigned_less [of y] by simp_all
  from Cons.prems have e: "unat x + 2 ^ 64 * val xs = unat y + 2 ^ 64 * val ys"
    by (simp del: power_numeral)
  from digits_unique [OF bx by' e] Cons.IH show ?case by (simp add: word_unat_eq_iff)
qed

lemma length_carry_loop: "length (carry_loop x i) = length x"
proof (induction x i rule: carry_loop.induct)
  case (1 x index)
  show ?case
    using "1.IH" by (subst carry_loop.simps) (simp add: Let_def)
qed

lemma length_add_carry: "length (add_carry x v i) = length x"
  by (simp add: add_carry_def Let_def length_carry_loop)

lemma val_lt_1024: "length x = 16 \<Longrightarrow> val x < 2 ^ 1024"
  using val_bound [of x] by simp

lemma unat_plus_one_cases:
  fixes w :: u64
  shows "(w + 1 \<noteq> 0 \<and> unat (w + 1) = unat w + 1) \<or> (w + 1 = 0 \<and> unat w + 1 = 2 ^ 64)"
proof (cases "w + 1 = 0")
  case True
  then have "w = - 1" by (simp add: eq_neg_iff_add_eq_0)
  then have "unat w + 1 = 2 ^ 64" by (simp add: unsigned_minus_1_eq_mask mask_eq_exp_minus_1)
  with True show ?thesis by simp
next
  case False
  then have "unat (1 + w) = Suc (unat w)" by (intro unatSuc) (simp add: add.commute)
  with False show ?thesis by (simp add: add.commute)
qed

lemma val_carry_loop:
  "length x = 16 \<Longrightarrow> i < 16 \<Longrightarrow> val (carry_loop x i) = (val x + 2 ^ (64 * (i + 1))) mod 2 ^ 1024"
proof (induction x i rule: carry_loop.induct)
  case (1 x index)
  note len = \<open>length x = 16\<close>
  show ?case
  proof (cases "index + 1 < 16")
    case False
    with "1.prems" have "index = 15" by simp
    then show ?thesis
      using val_lt_1024 [OF len] by (subst carry_loop.simps) (simp del: power_numeral)
  next
    case True
    define j where "j = index + 1"
    define x' where "x' = x[j := x ! j + 1]"
    have j: "j < 16" "j < length x" using True len by (simp_all add: j_def)
    have len': "length x' = 16" using len by (simp add: x'_def)
    have x'j: "x' ! j = x ! j + 1" using j by (simp add: x'_def)
    have upd: "val x' + unat (x ! j) * 2 ^ (64 * j) = val x + unat (x ! j + 1) * 2 ^ (64 * j)"
      unfolding x'_def by (rule val_update [OF j(2)])
    have unf: "carry_loop x index = (if x' ! j \<noteq> 0 then x' else carry_loop x' j)"
      using True by (subst carry_loop.simps) (simp add: Let_def j_def x'_def)
    from unat_plus_one_cases [of "x ! j"] show ?thesis
    proof (elim disjE conjE)
      assume nz: "x ! j + 1 \<noteq> 0" and u: "unat (x ! j + 1) = unat (x ! j) + 1"
      from upd u have "val x' = val x + 2 ^ (64 * j)" by (simp add: algebra_simps)
      moreover have "val x' < 2 ^ 1024" by (rule val_lt_1024 [OF len'])
      ultimately show ?thesis using nz unf x'j by (simp add: j_def del: power_numeral)
    next
      assume z: "x ! j + 1 = 0" and u: "unat (x ! j) + 1 = 2 ^ 64"
      have IH: "val (carry_loop x' j) = (val x' + 2 ^ (64 * (j + 1))) mod 2 ^ 1024"
        using "1.IH" [of j x'] True len' j x'j z by (simp add: j_def x'_def)
      have "(unat (x ! j) + 1) * 2 ^ (64 * j) = (2::nat) ^ (64 * (j + 1))"
        by (simp only: u flip: power_add) (simp add: algebra_simps)
      with upd z have "val x' + 2 ^ (64 * (j + 1)) = val x + 2 ^ (64 * j)"
        by (simp add: algebra_simps del: power_numeral)
      with IH unf x'j z show ?thesis by (simp add: j_def del: power_numeral)
    qed
  qed
qed

lemma unat_add_cases:
  fixes a v :: u64
  shows "(\<not> a + v < v \<and> unat (a + v) = unat a + unat v)
       \<or> (a + v < v \<and> unat (a + v) + 2 ^ 64 = unat a + unat v)"
proof -
  have ba: "unat a < 2 ^ 64" and bv: "unat v < 2 ^ 64"
    using unsigned_less [of a] unsigned_less [of v] by simp_all
  have s: "unat (a + v) = (unat a + unat v) mod 2 ^ 64"
    by (simp add: unat_word_ariths)
  show ?thesis
  proof (cases "unat a + unat v < 2 ^ 64")
    case True
    with s have "unat (a + v) = unat a + unat v" by simp
    then show ?thesis by (simp add: word_less_nat_alt)
  next
    case False
    then have "(unat a + unat v) mod 2 ^ 64 = unat a + unat v - 2 ^ 64"
      using ba bv by (simp add: mod_if del: power_numeral)
    with s False have e: "unat (a + v) + 2 ^ 64 = unat a + unat v" by (simp del: power_numeral)
    with ba have "unat (a + v) < unat v" by (simp del: power_numeral)
    with e show ?thesis by (simp add: word_less_nat_alt del: power_numeral)
  qed
qed

lemma val_add_carry:
  assumes len: "length x = 16"
  shows "val (add_carry x v i) = (val x + unat v * 2 ^ (64 * i)) mod 2 ^ 1024"
proof (cases "i \<ge> 16")
  case True
  then obtain d where d: "i = 16 + d" using le_Suc_ex by blast
  define k where "k = unat v * 2 ^ (64 * d)"
  have "unat v * 2 ^ (64 * i) = (2::nat) ^ 1024 * k"
    by (simp add: d k_def power_add del: power_numeral)
  then have "(val x + unat v * 2 ^ (64 * i)) mod 2 ^ 1024 = val x mod 2 ^ 1024"
    by (simp only: mod_mult_self2)
  with True val_lt_1024 [OF len] show ?thesis by (simp add: add_carry_def del: power_numeral)
next
  case False
  then have i: "i < 16" "i < length x" using len by simp_all
  define x' where "x' = x[i := x ! i + v]"
  have len': "length x' = 16" using len by (simp add: x'_def)
  have x'i: "x' ! i = x ! i + v" using i by (simp add: x'_def)
  have upd: "val x' + unat (x ! i) * 2 ^ (64 * i) = val x + unat (x ! i + v) * 2 ^ (64 * i)"
    unfolding x'_def by (rule val_update [OF i(2)])
  have unf: "add_carry x v i = (if x ! i + v < v then carry_loop x' i else x')"
    using i x'i by (simp add: add_carry_def Let_def x'_def)
  from unat_add_cases [of "x ! i" v] show ?thesis
  proof (elim disjE conjE)
    assume nw: "\<not> x ! i + v < v" and u: "unat (x ! i + v) = unat (x ! i) + unat v"
    from upd u have "val x' = val x + unat v * 2 ^ (64 * i)" by (simp add: algebra_simps)
    moreover have "val x' < 2 ^ 1024" by (rule val_lt_1024 [OF len'])
    ultimately show ?thesis using nw unf by (simp del: power_numeral)
  next
    assume w: "x ! i + v < v" and u: "unat (x ! i + v) + 2 ^ 64 = unat (x ! i) + unat v"
    have cl: "val (carry_loop x' i) = (val x' + 2 ^ (64 * (i + 1))) mod 2 ^ 1024"
      by (rule val_carry_loop [OF len' i(1)])
    have "(unat (x ! i + v) + 2 ^ 64) * 2 ^ (64 * i) = (unat (x ! i) + unat v) * 2 ^ (64 * i)"
      by (simp only: u)
    then have "unat (x ! i + v) * 2 ^ (64 * i) + 2 ^ (64 * (i + 1))
             = unat (x ! i) * 2 ^ (64 * i) + unat v * 2 ^ (64 * i)"
      by (simp add: algebra_simps power_add del: power_numeral)
    with upd have "val x' + 2 ^ (64 * (i + 1)) = val x + unat v * 2 ^ (64 * i)"
      by (simp del: power_numeral)
    with cl unf w show ?thesis by (simp del: power_numeral)
  qed
qed

lemma umul128_val:
  assumes "umul128 a b = (lo, hi)"
  shows "unat lo + 2 ^ 64 * unat hi = unat a * unat b"
proof -
  define p :: u128 where "p = ucast a * ucast b"
  have ba: "unat a < 2 ^ 64" and bb: "unat b < 2 ^ 64"
    using unsigned_less [of a] unsigned_less [of b] by simp_all
  have "unat a * unat b < 2 ^ 64 * 2 ^ 64"
    using ba bb by (rule mult_strict_mono') simp_all
  then have lt: "unat a * unat b < 2 ^ 128" by simp
  have "unat (ucast a :: u128) = unat a" "unat (ucast b :: u128) = unat b"
    using ba bb by (simp_all add: unsigned_ucast_eq take_bit_nat_eq_self)
  then have up: "unat p = unat a * unat b"
    using lt by (simp add: p_def unat_word_ariths)
  have "lo = ucast p"
    using assms by (simp add: umul128_def Let_def p_def)
  then have lo: "unat lo = unat p mod 2 ^ 64"
    by (simp add: unsigned_ucast_eq take_bit_eq_mod del: power_numeral)
  have "unat (drop_bit 64 p) = unat p div 2 ^ 64"
    by (subst unat_drop_bit_eq) (simp only: drop_bit_eq_div)
  moreover have "unat p div 2 ^ 64 < 2 ^ 64"
    using lt up by (simp add: less_mult_imp_div_less)
  moreover have "hi = ucast (drop_bit 64 p)"
    using assms by (simp add: umul128_def Let_def p_def)
  ultimately have hi: "unat hi = unat p div 2 ^ 64"
    by (simp add: unsigned_ucast_eq take_bit_nat_eq_self del: power_numeral)
  show ?thesis unfolding lo hi up [symmetric] by (simp del: power_numeral)
qed

lemma val_sum: "val xs = (\<Sum>i<length xs. unat (xs ! i) * 2 ^ (64 * i))"
proof (induction xs rule: rev_induct)
  case Nil
  show ?case by simp
next
  case (snoc x xs)
  have "(\<Sum>i<length xs. unat ((xs @ [x]) ! i) * 2 ^ (64 * i))
      = (\<Sum>i<length xs. unat (xs ! i) * 2 ^ (64 * i))"
    by (rule sum.cong) (simp_all add: nth_append)
  with snoc.IH show ?case by (simp add: val_append)
qed

lemma fold_upt_val:
  fixes f :: "nat \<Rightarrow> u64 list \<Rightarrow> u64 list" and g :: "nat \<Rightarrow> nat"
  assumes step: "\<And>i y. i < k \<Longrightarrow> length y = 16 \<Longrightarrow>
             length (f i y) = 16 \<and> val (f i y) = (val y + g i) mod 2 ^ 1024"
    and len: "length x = 16"
  shows "length (fold f [0..<k] x) = 16
       \<and> val (fold f [0..<k] x) = (val x + (\<Sum>i<k. g i)) mod 2 ^ 1024"
  using step
proof (induction k)
  case 0
  show ?case using len val_lt_1024 [OF len] by (simp del: power_numeral)
next
  case (Suc k)
  define y where "y = fold f [0..<k] x"
  have IH: "length y = 16 \<and> val y = (val x + (\<Sum>i<k. g i)) mod 2 ^ 1024"
    unfolding y_def by (rule Suc.IH) (simp add: Suc.prems)
  have s: "length (f k y) = 16 \<and> val (f k y) = (val y + g k) mod 2 ^ 1024"
    using Suc.prems [of k y] IH by simp
  have "(val y + g k) mod 2 ^ 1024 = (val x + (\<Sum>i<k. g i) + g k) mod 2 ^ 1024"
    using IH by (simp only: mod_add_left_eq)
  with s show ?case by (simp add: y_def add.assoc del: power_numeral)
qed

lemma add_carry_step:
  "length y = 16 \<Longrightarrow>
   length (add_carry y v i) = 16 \<and> val (add_carry y v i) = (val y + unat v * 2 ^ (64 * i)) mod 2 ^ 1024"
  by (simp add: length_add_carry val_add_carry del: power_numeral)

lemma add_carry_pair:
  assumes len: "length y = 16" and m: "umul128 a b = (lo, hi)"
  shows "length (add_carry (add_carry y lo i) hi (i + 1)) = 16
       \<and> val (add_carry (add_carry y lo i) hi (i + 1))
           = (val y + unat a * unat b * 2 ^ (64 * i)) mod 2 ^ 1024"
proof -
  define y1 where "y1 = add_carry y lo i"
  have y1: "length y1 = 16" "val y1 = (val y + unat lo * 2 ^ (64 * i)) mod 2 ^ 1024"
    using add_carry_step [OF len, of lo i] by (simp_all add: y1_def)
  have y2: "val (add_carry y1 hi (i + 1)) = (val y1 + unat hi * 2 ^ (64 * (i + 1))) mod 2 ^ 1024"
    using add_carry_step [OF y1(1), of hi "i + 1"] by simp
  have "(val y1 + unat hi * 2 ^ (64 * (i + 1))) mod 2 ^ 1024
      = (val y + unat lo * 2 ^ (64 * i) + unat hi * 2 ^ (64 * (i + 1))) mod 2 ^ 1024"
    unfolding y1(2) by (simp only: mod_add_left_eq)
  moreover have "unat lo * 2 ^ (64 * i) + unat hi * 2 ^ (64 * (i + 1))
      = (unat lo + 2 ^ 64 * unat hi) * 2 ^ (64 * i)"
    by (simp add: algebra_simps power_add del: power_numeral)
  ultimately have "val (add_carry y1 hi (i + 1))
      = (val y + unat a * unat b * 2 ^ (64 * i)) mod 2 ^ 1024"
    using y2 umul128_val [OF m] by (simp add: add.assoc del: power_numeral)
  then show ?thesis using y1(1) by (simp add: y1_def length_add_carry)
qed

lemma plus_assign_step_val:
  assumes len: "length y = 16" and i: "i < 16"
  shows "length (plus_assign_step inc n i y) = 16
       \<and> val (plus_assign_step inc n i y) = (val y + unat (inc ! i) * unat n * 2 ^ (64 * i)) mod 2 ^ 1024"
proof -
  obtain lo hi where m: "umul128 (inc ! i) n = (lo, hi)" by (cases "umul128 (inc ! i) n")
  have "add_carry (add_carry y lo i) hi 16 = add_carry y lo i" by (simp add: add_carry_def)
  then have "plus_assign_step inc n i y = add_carry (add_carry y lo i) hi (i + 1)"
    using i m by (cases "i = 15") (simp_all add: plus_assign_step_def)
  with add_carry_pair [OF len m, of i] show ?thesis by simp
qed

lemma big_jump_inner_val:
  assumes len: "length y = 16"
  shows "length (big_jump_inner inc s i j y) = 16
       \<and> val (big_jump_inner inc s i j y)
           = (val y + unat (inc ! j) * unat s * 2 ^ (64 * (i + j))) mod 2 ^ 1024"
proof (cases "i + j < 16")
  case True
  obtain lo hi where m: "umul128 (inc ! j) s = (lo, hi)" by (cases "umul128 (inc ! j) s")
  from True m add_carry_pair [OF len m, of "i + j"] show ?thesis
    by (simp add: big_jump_inner_def)
next
  case False
  then obtain d where d: "i + j = 16 + d" using le_Suc_ex [of 16 "i + j"] by auto
  define k where "k = unat (inc ! j) * unat s * 2 ^ (64 * d)"
  have "unat (inc ! j) * unat s * 2 ^ (64 * (i + j)) = (2::nat) ^ 1024 * k"
    by (simp add: d k_def power_add del: power_numeral)
  then have "(val y + unat (inc ! j) * unat s * 2 ^ (64 * (i + j))) mod 2 ^ 1024 = val y mod 2 ^ 1024"
    by (simp only: mod_mult_self2)
  with False val_lt_1024 [OF len] len show ?thesis
    by (simp add: big_jump_inner_def del: power_numeral)
qed

lemma val_sum16: "length xs = 16 \<Longrightarrow> (\<Sum>i<16. unat (xs ! i) * 2 ^ (64 * i)) = val xs"
  by (simp add: val_sum)

lemma big_jump_outer_val:
  assumes len: "length y = 16" and inc: "length inc = 16"
  shows "length (big_jump_outer inc step i y) = 16
       \<and> val (big_jump_outer inc step i y)
           = (val y + unat (step ! i) * val inc * 2 ^ (64 * i)) mod 2 ^ 1024"
proof (cases "step ! i = 0")
  case True
  with len val_lt_1024 [OF len] show ?thesis by (simp add: big_jump_outer_def del: power_numeral)
next
  case False
  have f: "length (fold (big_jump_inner inc (step ! i) i) [0..<16] y) = 16
    \<and> val (fold (big_jump_inner inc (step ! i) i) [0..<16] y)
       = (val y + (\<Sum>j<16. unat (inc ! j) * unat (step ! i) * 2 ^ (64 * (i + j)))) mod 2 ^ 1024"
    by (rule fold_upt_val [OF _ len]) (rule big_jump_inner_val)
  have "(\<Sum>j<16. unat (inc ! j) * unat (step ! i) * 2 ^ (64 * (i + j)))
      = (\<Sum>j<16. (unat (inc ! j) * 2 ^ (64 * j)) * (unat (step ! i) * 2 ^ (64 * i)))"
    by (rule sum.cong) (simp_all add: algebra_simps power_add)
  also have "\<dots> = (\<Sum>j<16. unat (inc ! j) * 2 ^ (64 * j)) * (unat (step ! i) * 2 ^ (64 * i))"
    by (simp only: sum_distrib_right)
  also have "\<dots> = unat (step ! i) * val inc * 2 ^ (64 * i)"
    by (simp only: val_sum16 [OF inc]) (simp add: algebra_simps)
  finally show ?thesis using f False by (simp add: big_jump_outer_def del: power_numeral)
qed

lemma plus_plus_val:
  assumes ok: "counter_ok c"
  shows "counter_ok (plus_plus c)" and "increment (plus_plus c) = increment c"
    and "val (state (plus_plus c)) = (val (state c) + val (increment c)) mod 2 ^ 1024"
proof -
  from ok have len: "length (state c) = 16" and inc: "length (increment c) = 16"
    by (simp_all add: counter_ok_def)
  let ?f = "\<lambda>i x. add_carry x (increment c ! i) i"
  have f: "length (fold ?f [0..<16] (state c)) = 16
    \<and> val (fold ?f [0..<16] (state c))
       = (val (state c) + (\<Sum>i<16. unat (increment c ! i) * 2 ^ (64 * i))) mod 2 ^ 1024"
    by (rule fold_upt_val [OF _ len]) (rule add_carry_step)
  show "counter_ok (plus_plus c)" using f inc by (simp add: plus_plus_def counter_ok_def)
  show "increment (plus_plus c) = increment c" by (simp add: plus_plus_def)
  show "val (state (plus_plus c)) = (val (state c) + val (increment c)) mod 2 ^ 1024"
    using f by (simp only: val_sum16 [OF inc]) (simp add: plus_plus_def)
qed

lemma plus_assign_val:
  assumes ok: "counter_ok c"
  shows "counter_ok (plus_assign n c)" and "increment (plus_assign n c) = increment c"
    and "val (state (plus_assign n c)) = (val (state c) + unat n * val (increment c)) mod 2 ^ 1024"
proof -
  from ok have len: "length (state c) = 16" and inc: "length (increment c) = 16"
    by (simp_all add: counter_ok_def)
  let ?f = "plus_assign_step (increment c) n"
  have f: "length (fold ?f [0..<16] (state c)) = 16
    \<and> val (fold ?f [0..<16] (state c))
       = (val (state c) + (\<Sum>i<16. unat (increment c ! i) * unat n * 2 ^ (64 * i))) mod 2 ^ 1024"
    by (rule fold_upt_val [OF _ len]) (rule plus_assign_step_val)
  have "(\<Sum>i<16. unat (increment c ! i) * unat n * 2 ^ (64 * i))
      = (\<Sum>i<16. unat n * (unat (increment c ! i) * 2 ^ (64 * i)))"
    by (rule sum.cong) (simp_all add: algebra_simps)
  also have "\<dots> = unat n * (\<Sum>i<16. unat (increment c ! i) * 2 ^ (64 * i))"
    by (simp only: sum_distrib_left)
  finally have s: "(\<Sum>i<16. unat (increment c ! i) * unat n * 2 ^ (64 * i)) = unat n * val (increment c)"
    by (simp only: val_sum16 [OF inc])
  have g: "length (fold ?f [0..<16] (state c)) = 16
    \<and> val (fold ?f [0..<16] (state c)) = (val (state c) + unat n * val (increment c)) mod 2 ^ 1024"
    using f by (simp only: s)
  show "increment (plus_assign n c) = increment c" by (simp add: plus_assign_def plus_plus_def)
  show "counter_ok (plus_assign n c)"
    using g ok plus_plus_val(1) [OF ok] inc by (simp add: plus_assign_def counter_ok_def)
  show "val (state (plus_assign n c)) = (val (state c) + unat n * val (increment c)) mod 2 ^ 1024"
  proof (cases "n = 0 \<or> n = 1")
    case True
    then show ?thesis
      using plus_plus_val(3) [OF ok] val_lt_1024 [OF len]
      by (auto simp add: plus_assign_def simp del: power_numeral)
  next
    case False
    with g show ?thesis by (simp add: plus_assign_def)
  qed
qed

lemma big_jump_val:
  assumes ok: "counter_ok c" and st: "length step = 16"
  shows "counter_ok (big_jump step c)" and "increment (big_jump step c) = increment c"
    and "val (state (big_jump step c)) = (val (state c) + val step * val (increment c)) mod 2 ^ 1024"
proof -
  from ok have len: "length (state c) = 16" and inc: "length (increment c) = 16"
    by (simp_all add: counter_ok_def)
  let ?f = "big_jump_outer (increment c) step"
  have f: "length (fold ?f [0..<16] (state c)) = 16
    \<and> val (fold ?f [0..<16] (state c))
       = (val (state c) + (\<Sum>i<16. unat (step ! i) * val (increment c) * 2 ^ (64 * i))) mod 2 ^ 1024"
    by (rule fold_upt_val [OF _ len]) (rule big_jump_outer_val [OF _ inc])
  have "(\<Sum>i<16. unat (step ! i) * val (increment c) * 2 ^ (64 * i))
      = (\<Sum>i<16. (unat (step ! i) * 2 ^ (64 * i)) * val (increment c))"
    by (rule sum.cong) (simp_all add: algebra_simps)
  also have "\<dots> = (\<Sum>i<16. unat (step ! i) * 2 ^ (64 * i)) * val (increment c)"
    by (simp only: sum_distrib_right)
  finally have s: "(\<Sum>i<16. unat (step ! i) * val (increment c) * 2 ^ (64 * i))
      = val step * val (increment c)"
    by (simp only: val_sum16 [OF st])
  have g: "length (fold ?f [0..<16] (state c)) = 16
    \<and> val (fold ?f [0..<16] (state c)) = (val (state c) + val step * val (increment c)) mod 2 ^ 1024"
    using f by (simp only: s)
  show "increment (big_jump step c) = increment c" by (simp add: big_jump_def)
  show "counter_ok (big_jump step c)" using g inc by (simp add: big_jump_def counter_ok_def)
  show "val (state (big_jump step c)) = (val (state c) + val step * val (increment c)) mod 2 ^ 1024"
    using g by (simp add: big_jump_def)
qed

lemma funpow_plus_plus_val:
  assumes ok: "counter_ok c"
  shows "counter_ok ((plus_plus ^^ k) c) \<and> increment ((plus_plus ^^ k) c) = increment c
       \<and> val (state ((plus_plus ^^ k) c)) = (val (state c) + k * val (increment c)) mod 2 ^ 1024"
proof (induction k)
  case 0
  from ok have "length (state c) = 16" by (simp add: counter_ok_def)
  from val_lt_1024 [OF this] ok show ?case by (simp del: power_numeral)
next
  case (Suc k)
  define d where "d = (plus_plus ^^ k) c"
  from Suc.IH have d: "counter_ok d" "increment d = increment c"
    "val (state d) = (val (state c) + k * val (increment c)) mod 2 ^ 1024"
    by (simp_all add: d_def)
  have "val (state (plus_plus d)) = (val (state d) + val (increment c)) mod 2 ^ 1024"
    using plus_plus_val(3) [OF d(1)] d(2) by simp
  also have "\<dots> = (val (state c) + k * val (increment c) + val (increment c)) mod 2 ^ 1024"
    unfolding d(3) by (simp only: mod_add_left_eq)
  finally have "val (state (plus_plus d)) = (val (state c) + Suc k * val (increment c)) mod 2 ^ 1024"
    by (simp add: algebra_simps del: power_numeral)
  with plus_plus_val(1,2) [OF d(1)] d(2) show ?case by (simp add: d_def del: power_numeral)
qed

lemma counter_eqI:
  fixes a b :: Counter_1024
  assumes "counter_ok a" "counter_ok b" "increment a = increment b" "val (state a) = val (state b)"
  shows "a = b"
proof -
  have "state a = state b"
    using assms by (intro val_inj) (simp_all add: counter_ok_def)
  with assms(3) show ?thesis by simp
qed

lemma fold_update_length:
  "length (fold (\<lambda>i inc. inc[i := f inc i]) ns x) = length x"
  by (induction ns arbitrary: x) simp_all

lemma fold_update_nth0:
  "0 \<notin> set ns \<Longrightarrow> fold (\<lambda>i inc. inc[i := f inc i]) ns x ! 0 = x ! 0"
  by (induction ns arbitrary: x) simp_all

lemma length_initialize_increment: "length (initialize_increment inc0) = length inc0"
  by (simp add: initialize_increment_def fold_update_length)

lemma initialize_increment_0: "0 < length inc0 \<Longrightarrow> initialize_increment inc0 ! 0 = INC"
  by (simp add: initialize_increment_def fold_update_nth0)

lemma counter_ok_new: "counter_ok new_Counter_1024"
  by (simp add: counter_ok_def new_Counter_1024_def length_initialize_increment)

lemma odd_val_iff: "0 < length xs \<Longrightarrow> odd (val xs) \<longleftrightarrow> odd (unat (xs ! 0))"
  by (cases xs) simp_all

lemma odd_INC: "odd (unat INC)"
  by (simp add: INC_def)

lemma period_arith:
  fixes v k I :: nat
  assumes v: "v < 2 ^ 1024" and I: "odd I"
  shows "(v + k * I) mod 2 ^ 1024 = v \<longleftrightarrow> 2 ^ 1024 dvd k"
proof -
  have cop: "coprime ((2::nat) ^ 1024) I"
    using I by (simp only: coprime_power_left_iff coprime_left_2_iff_odd) simp
  have "(v + k * I) mod 2 ^ 1024 = v \<longleftrightarrow> (v + k * I) mod 2 ^ 1024 = v mod 2 ^ 1024"
    using v by (simp del: power_numeral)
  also have "\<dots> \<longleftrightarrow> 2 ^ 1024 dvd (v + k * I) - v"
    by (rule mod_eq_dvd_iff_nat) simp
  also have "\<dots> \<longleftrightarrow> 2 ^ 1024 dvd k * I" by simp
  also have "\<dots> \<longleftrightarrow> 2 ^ 1024 dvd k" by (rule coprime_dvd_mult_left_iff [OF cop])
  finally show ?thesis .
qed

lemma val_replicate_0: "val (replicate n 0) = 0"
  by (induction n) simp_all

lemma val_replicate_ones: "val (replicate n (- 1)) + 1 = 2 ^ (64 * n)"
proof (induction n)
  case 0
  show ?case by simp
next
  case (Suc n)
  have "unat (- 1 :: u64) + 1 = 2 ^ 64"
    by (simp add: unsigned_minus_1_eq_mask mask_eq_exp_minus_1)
  then have "val (replicate (Suc n) (- 1)) + 1 = 2 ^ 64 * (val (replicate n (- 1)) + 1)"
    by (simp del: power_numeral)
  then show ?case by (simp only: Suc.IH) (simp add: power_add)
qed

lemma plus_assign_funpow:
  assumes ok: "counter_ok c"
  shows "plus_assign n c = (plus_plus ^^ unat n) c"
  using plus_assign_val [OF ok, of n] funpow_plus_plus_val [OF ok, of "unat n"]
  by (intro counter_eqI) simp_all

section \<open>The counter: advance, jump and period\<close>

text \<open>
  Claim C2. For every counter and every 64-bit \<open>n\<close>, \<^verbatim>\<open>operator+=(n)\<close> produces exactly
  the state reached by applying \<^verbatim>\<open>operator++\<close> \<open>n\<close> times: \<open>n = 0\<close> changes nothing,
  \<open>n = 1\<close> is one \<^verbatim>\<open>operator++\<close>, and the sum wraps modulo \<open>2 ^ 1024\<close>.
\<close>

theorem plus_assign_is_repeated_plus_plus:
  assumes ok: "counter_ok c"
  shows "plus_assign n c = (plus_plus ^^ unat n) c
       \<and> plus_assign 0 c = c
       \<and> plus_assign 1 c = plus_plus c
       \<and> val (state (plus_assign n c)) = (val (state c) + unat n * val (increment c)) mod 2 ^ 1024"
proof -
  have "plus_assign n c = (plus_plus ^^ unat n) c"
    by (rule plus_assign_funpow [OF ok])
  moreover have "plus_assign 0 c = c" "plus_assign 1 c = plus_plus c"
    by (simp_all add: plus_assign_def)
  ultimately show ?thesis using plus_assign_val(3) [OF ok, of n] by simp
qed

theorem plus_assign_is_repeated_plus_plus_witness:
  "counter_ok new_Counter_1024
   \<and> plus_assign 1000 new_Counter_1024 = (plus_plus ^^ unat (1000 :: u64)) new_Counter_1024"
  using plus_assign_is_repeated_plus_plus [of new_Counter_1024 1000] counter_ok_new by simp


lemma big_jump_twice:
  assumes ok: "counter_ok c"
    and a: "length a = 16" and b: "length b = 16" and ab: "length ab = 16"
    and sum: "val ab = (val a + val b) mod 2 ^ 1024"
  shows "big_jump b (big_jump a c) = big_jump ab c"
proof -
  let ?I = "val (increment c)"
  note ja = big_jump_val [OF ok a]
  note jb = big_jump_val [OF ja(1) b]
  note jab = big_jump_val [OF ok ab]
  have "val (state (big_jump b (big_jump a c)))
      = ((val (state c) + val a * ?I) mod 2 ^ 1024 + val b * ?I) mod 2 ^ 1024"
    using jb(3) ja(2,3) by simp
  also have "\<dots> = (val (state c) + val a * ?I + val b * ?I) mod 2 ^ 1024"
    by (simp only: mod_add_left_eq)
  also have "\<dots> = (val (state c) + (val a + val b) * ?I) mod 2 ^ 1024"
    by (simp add: algebra_simps del: power_numeral)
  also have "\<dots> = (val (state c) + ((val a + val b) mod 2 ^ 1024) * ?I) mod 2 ^ 1024"
    by (metis mod_add_right_eq mod_mult_left_eq)
  also have "\<dots> = val (state (big_jump ab c))"
    using jab(3) sum by simp
  finally show ?thesis
    using jb(1,2) ja(2) jab(1,2) by (intro counter_eqI) simp_all
qed

text \<open>
  Claim C3. \<^verbatim>\<open>big_jump(a)\<close> followed by \<^verbatim>\<open>big_jump(b)\<close> gives the same counter as one
  \<^verbatim>\<open>big_jump\<close> whose step is the 1024-bit sum of \<open>a\<close> and \<open>b\<close> modulo \<open>2 ^ 1024\<close>,
  for arbitrary 16-limb steps, with or without zero limbs, whether or not the sum wraps.
\<close>

theorem big_jump_composes:
  assumes ok: "counter_ok c" and a: "length a = 16" and b: "length b = 16"
  shows "(\<forall>ab. length ab = 16 \<and> val ab = (val a + val b) mod 2 ^ 1024 \<longrightarrow>
            big_jump b (big_jump a c) = big_jump ab c)
       \<and> val (state (plus_plus \<lparr>state = a, increment = b\<rparr>)) = (val a + val b) mod 2 ^ 1024
       \<and> big_jump b (big_jump a c) = big_jump (state (plus_plus \<lparr>state = a, increment = b\<rparr>)) c"
proof -
  have okab: "counter_ok \<lparr>state = a, increment = b\<rparr>" using a b by (simp add: counter_ok_def)
  note s = plus_plus_val [OF okab]
  have l: "length (state (plus_plus \<lparr>state = a, increment = b\<rparr>)) = 16"
    using s(1) by (simp add: counter_ok_def)
  have v: "val (state (plus_plus \<lparr>state = a, increment = b\<rparr>)) = (val a + val b) mod 2 ^ 1024"
    using s(3) by simp
  from big_jump_twice [OF ok a b] l v show ?thesis by blast
qed

theorem big_jump_composes_witness:
  "counter_ok new_Counter_1024
   \<and> length (replicate 16 (- 1 :: u64)) = 16 \<and> length (2 # replicate 15 (0 :: u64)) = 16
   \<and> length (1 # replicate 15 (0 :: u64)) = 16
   \<and> val (1 # replicate 15 0) = (val (replicate 16 (- 1)) + val (2 # replicate 15 0)) mod 2 ^ 1024
   \<and> big_jump (2 # replicate 15 0) (big_jump (replicate 16 (- 1)) new_Counter_1024)
     = big_jump (1 # replicate 15 0) new_Counter_1024"
proof -
  have "val (replicate 16 (- 1)) + 1 = 2 ^ 1024"
    using val_replicate_ones [of 16] by simp
  then have "val (replicate 16 (- 1)) + val (2 # replicate 15 0) = 1 + 2 ^ 1024 * 1"
    by (simp add: val_replicate_0 del: power_numeral)
  moreover have "(1 + 2 ^ 1024 * 1) mod 2 ^ 1024 = (1::nat)"
    by (simp only: mod_mult_self2) simp
  ultimately have s: "val (1 # replicate 15 0) = (val (replicate 16 (- 1)) + val (2 # replicate 15 0)) mod 2 ^ 1024"
    by (simp add: val_replicate_0 del: power_numeral)
  have l: "length (replicate 16 (- 1 :: u64)) = 16" "length (2 # replicate 15 (0 :: u64)) = 16"
    "length (1 # replicate 15 (0 :: u64)) = 16" by simp_all
  from big_jump_composes [OF counter_ok_new l(1,2)] counter_ok_new l s show ?thesis by blast
qed

text \<open>
  Claim C8. The increment built by \<^verbatim>\<open>initialize_increment\<close> has an odd least-significant
  limb; hence from every starting state, \<open>k\<close> applications of \<^verbatim>\<open>operator++\<close> with
  \<open>1 \<le> k < 2 ^ 1024\<close> give a state different from the start, and \<open>2 ^ 1024\<close>
  applications give the start again: the period is exactly \<open>2 ^ 1024\<close>.
\<close>

theorem counter_period:
  assumes ok: "counter_ok c" and inc: "increment c = increment new_Counter_1024"
  shows "odd (unat (increment c ! 0))
       \<and> (\<forall>k. 1 \<le> k \<and> k < 2 ^ 1024 \<longrightarrow> state ((plus_plus ^^ k) c) \<noteq> state c)
       \<and> (plus_plus ^^ (2 ^ 1024)) c = c"
proof -
  have i0: "increment c ! 0 = INC"
    by (simp add: inc new_Counter_1024_def initialize_increment_0)
  then have odd0: "odd (unat (increment c ! 0))" by (simp add: odd_INC)
  from ok have len: "length (state c) = 16" and linc: "length (increment c) = 16"
    by (simp_all add: counter_ok_def)
  have oddI: "odd (val (increment c))" using odd0 linc by (simp add: odd_val_iff)
  have v: "val (state c) < 2 ^ 1024" by (rule val_lt_1024 [OF len])
  have per: "val (state ((plus_plus ^^ k) c)) = val (state c) \<longleftrightarrow> 2 ^ 1024 dvd k" for k
    using funpow_plus_plus_val [OF ok, of k] period_arith [OF v oddI, of k] by simp
  have "state ((plus_plus ^^ k) c) \<noteq> state c" if k: "1 \<le> k" "k < 2 ^ 1024" for k
  proof
    assume "state ((plus_plus ^^ k) c) = state c"
    then have "2 ^ 1024 dvd k" using per [of k] by simp
    then have "2 ^ 1024 \<le> k" using k(1) by (intro dvd_imp_le) simp_all
    with k(2) show False by simp
  qed
  moreover have "(plus_plus ^^ (2 ^ 1024)) c = c"
    using funpow_plus_plus_val [OF ok, of "2 ^ 1024"] ok per [of "2 ^ 1024"]
    by (intro counter_eqI) simp_all
  ultimately show ?thesis using odd0 by blast
qed

theorem counter_period_witness:
  "counter_ok new_Counter_1024
   \<and> odd (unat (increment new_Counter_1024 ! 0))
   \<and> state ((plus_plus ^^ 1) new_Counter_1024) \<noteq> state new_Counter_1024
   \<and> (plus_plus ^^ (2 ^ 1024)) new_Counter_1024 = new_Counter_1024"
proof -
  have "(1::nat) \<le> 1 \<and> (1::nat) < 2 ^ 1024" by simp
  with counter_period [OF counter_ok_new refl] counter_ok_new show ?thesis by blast
qed

section \<open>The statistical engine: discard against repeated calls\<close>

lemma small_cases32:
  fixes p :: "32 word"
  assumes "p \<le> 8"
  shows "p = 0 \<or> p = 1 \<or> p = 2 \<or> p = 3 \<or> p = 4 \<or> p = 5 \<or> p = 6 \<or> p = 7 \<or> p = 8"
proof -
  from assms have "unat p \<le> 8" by (simp add: word_le_nat_alt)
  then have "unat p = 0 \<or> unat p = 1 \<or> unat p = 2 \<or> unat p = 3 \<or> unat p = 4
      \<or> unat p = 5 \<or> unat p = 6 \<or> unat p = 7 \<or> unat p = 8" by arith
  then show ?thesis by (simp add: word_unat_eq_iff)
qed

lemma scast_small:
  fixes p :: "32 word"
  assumes "p \<le> 8"
  shows "unat (scast p :: u64) = unat p"
  using small_cases32 [OF assms] by (elim disjE) simp_all

lemma ucast_small:
  fixes n :: u64
  assumes "unat n \<le> 8"
  shows "unat (ucast n :: 32 word) = unat n"
  using assms by (simp add: unsigned_ucast_eq take_bit_nat_eq_self)

lemma unat_add32_small:
  fixes p d :: "32 word"
  assumes "unat p + unat d \<le> 8"
  shows "unat (p + d) = unat p + unat d"
  using assms by (simp add: unat_word_ariths)

lemma fold_store_nth:
  "k \<le> length b \<Longrightarrow>
   length (fold (\<lambda>i b. b[i := h i]) [0..<k] b) = length b
   \<and> (\<forall>j. fold (\<lambda>i b. b[i := h i]) [0..<k] b ! j = (if j < k then h j else b ! j))"
proof (induction k)
  case 0
  show ?case by simp
next
  case (Suc k)
  then show ?case by (simp add: nth_list_update)
qed

lemma nasam_refill_buffer_eq:
  assumes "nasam_ok g"
  shows "nasam_ok (nasam_refill_buffer g)"
    and "counter (nasam_refill_buffer g) = plus_plus (counter g)"
    and "buffer_position (nasam_refill_buffer g) = 0"
    and "j < 8 \<Longrightarrow> nasam_buffer (nasam_refill_buffer g) ! j = nasam (state (plus_plus (counter g)) ! (j + 8))"
proof -
  from assms have len: "8 \<le> length (nasam_buffer g)" "length (nasam_buffer g) = 8"
    and ok: "counter_ok (counter g)" by (simp_all add: nasam_ok_def)
  note f = fold_store_nth [OF len(1), of "\<lambda>i. nasam (state (plus_plus (counter g)) ! (i + 8))"]
  show "nasam_ok (nasam_refill_buffer g)"
    using f len(2) plus_plus_val(1) [OF ok]
    by (simp add: nasam_ok_def nasam_refill_buffer_def Let_def)
  show "counter (nasam_refill_buffer g) = plus_plus (counter g)"
    by (simp add: nasam_refill_buffer_def Let_def)
  show "buffer_position (nasam_refill_buffer g) = 0"
    by (simp add: nasam_refill_buffer_def Let_def)
  show "nasam_buffer (nasam_refill_buffer g) ! j = nasam (state (plus_plus (counter g)) ! (j + 8))"
    if "j < 8"
    using f that by (simp add: nasam_refill_buffer_def Let_def)
qed

lemma nasam_future_refilled:
  assumes c: "counter g' = (plus_plus ^^ Suc m) c"
    and b: "\<And>j. j < 8 \<Longrightarrow> nasam_buffer g' ! j = nasam (state ((plus_plus ^^ Suc m) c) ! (j + 8))"
  shows "nasam_future g' i
       = nasam (state ((plus_plus ^^ ((8 * m + unat (buffer_position g') + i) div 8 + 1)) c)
                ! ((unat (buffer_position g') + i) mod 8 + 8))"
proof -
  define q where "q = unat (buffer_position g') + i"
  show ?thesis
  proof (cases "q < 8")
    case True
    then have "(8 * m + q) div 8 + 1 = Suc m" by simp
    moreover have "nasam_future g' i = nasam_buffer g' ! q"
      using True by (simp add: nasam_future_def q_def)
    ultimately show ?thesis
      using True b [of q] by (simp add: q_def [symmetric] add.assoc)
  next
    case False
    then obtain r where r: "q = 8 + r" using le_Suc_ex [of 8 q] by auto
    have e: "(8 * m + q) div 8 + 1 = r div 8 + 1 + Suc m" by (simp add: r)
    have "(plus_plus ^^ (r div 8 + 1)) ((plus_plus ^^ Suc m) c)
        = (plus_plus ^^ ((8 * m + q) div 8 + 1)) c"
      by (simp only: e funpow_add o_apply)
    moreover have "nasam_future g' i
        = nasam (state ((plus_plus ^^ (r div 8 + 1)) (counter g')) ! (q mod 8 + 8))"
      using False by (simp add: nasam_future_def q_def [symmetric] r)
    ultimately show ?thesis by (simp only: c q_def add.assoc)
  qed
qed

lemma nasam_next_future_all:
  assumes ok: "nasam_ok g"
  shows "nasam_ok (snd (nasam_next g)) \<and> fst (nasam_next g) = nasam_future g 0
       \<and> nasam_future (snd (nasam_next g)) i = nasam_future g (Suc i)"
proof -
  from ok have p8: "buffer_position g \<le> 8" by (simp add: nasam_ok_def)
  then have up: "unat (buffer_position g) \<le> 8" by (simp add: word_le_nat_alt)
  show ?thesis
  proof (cases "buffer_position g = 8")
    case True
    define g1 where "g1 = nasam_refill_buffer g"
    note r = nasam_refill_buffer_eq [OF ok, folded g1_def]
    define g' where "g' = g1\<lparr>buffer_position := 1\<rparr>"
    have nx: "nasam_next g = (nasam_buffer g1 ! 0, g')"
      using True r(3) by (simp add: nasam_next_def g1_def g'_def Let_def)
    have u8: "unat (buffer_position g) = 8" using True by simp
    have 1: "nasam_ok (snd (nasam_next g))"
      using r(1) by (simp add: nx g'_def nasam_ok_def)
    have 2: "fst (nasam_next g) = nasam_future g 0"
      using r(4) [of 0] by (simp add: nx nasam_future_def u8)
    have "nasam_future g' i
        = nasam (state ((plus_plus ^^ ((8 * 0 + unat (buffer_position g') + i) div 8 + 1)) (counter g))
                 ! ((unat (buffer_position g') + i) mod 8 + 8))"
      by (rule nasam_future_refilled) (simp_all add: g'_def r)
    then have A: "nasam_future g' i
        = nasam (state ((plus_plus ^^ (Suc i div 8 + 1)) (counter g)) ! (Suc i mod 8 + 8))"
      by (simp add: g'_def)
    have m: "(9 + i) mod 8 = Suc i mod 8" by presburger
    have B: "nasam_future g (Suc i)
        = nasam (state ((plus_plus ^^ (Suc i div 8 + 1)) (counter g)) ! (Suc i mod 8 + 8))"
      by (simp add: nasam_future_def u8 m)
    have 3: "nasam_future (snd (nasam_next g)) i = nasam_future g (Suc i)"
      by (simp only: nx snd_conv A B)
    from 1 2 3 show ?thesis by simp
  next
    case False
    then have "unat (buffer_position g) \<noteq> 8" by (simp add: word_unat_eq_iff)
    with up have lt: "unat (buffer_position g) < 8" by simp
    then have u1: "unat (buffer_position g + 1) = unat (buffer_position g) + 1"
      using unat_add32_small [of "buffer_position g" 1] by simp
    have nx: "nasam_next g = (nasam_buffer g ! unat (buffer_position g),
        g\<lparr>buffer_position := buffer_position g + 1\<rparr>)"
      using False by (simp add: nasam_next_def Let_def)
    have 1: "nasam_ok (snd (nasam_next g))"
      using ok lt u1 by (simp add: nx nasam_ok_def word_le_nat_alt)
    have 2: "fst (nasam_next g) = nasam_future g 0"
      using lt by (simp add: nx nasam_future_def)
    have 3: "nasam_future (snd (nasam_next g)) i = nasam_future g (Suc i)"
      by (simp add: nx nasam_future_def u1)
    from 1 2 3 show ?thesis by simp
  qed
qed

lemma nasam_next_future:
  assumes ok: "nasam_ok g"
  shows "nasam_ok (snd (nasam_next g))"
    and "fst (nasam_next g) = nasam_future g 0"
    and "nasam_future (snd (nasam_next g)) i = nasam_future g (Suc i)"
  using nasam_next_future_all [OF ok] by simp_all

lemma nasam_last_of_nexts_future:
  "nasam_ok g \<Longrightarrow> fst (nasam_last_of_nexts k g) = nasam_future g k"
proof (induction k arbitrary: g)
  case 0
  then show ?case by (simp add: nasam_next_future(2))
next
  case (Suc k)
  from nasam_next_future [OF Suc.prems] Suc.IH [of "snd (nasam_next g)"] show ?case by simp
qed

lemma nasam_discard_future:
  assumes ok: "nasam_ok g"
  shows "nasam_ok (nasam_discard n g)
       \<and> nasam_future (nasam_discard n g) i = nasam_future g (i + unat n)"
proof -
  define p where "p = unat (buffer_position g)"
  define R :: u64 where "R = 8 - scast (buffer_position g)"
  from ok have p8: "buffer_position g \<le> 8" and cok: "counter_ok (counter g)"
    by (simp_all add: nasam_ok_def)
  then have up: "p \<le> 8" by (simp add: word_le_nat_alt p_def)
  have sp: "unat (scast (buffer_position g) :: u64) = p"
    by (simp add: scast_small [OF p8] p_def)
  then have "(scast (buffer_position g) :: u64) \<le> 8" using up by (simp add: word_le_nat_alt)
  then have uR: "unat R = 8 - p" by (simp add: R_def unat_sub sp)
  show ?thesis
  proof (cases "n \<le> R")
    case True
    then have le: "unat n \<le> 8 - p" by (simp add: word_le_nat_alt uR)
    then have "unat (ucast n :: 32 word) = unat n" by (intro ucast_small) simp
    then have u: "unat (buffer_position g + ucast n) = p + unat n"
      using le up unat_add32_small [of "buffer_position g" "ucast n"] by (simp add: p_def)
    have d: "nasam_discard n g = g\<lparr>buffer_position := buffer_position g + ucast n\<rparr>"
      using True by (simp add: nasam_discard_def Let_def R_def)
    have "nasam_ok (nasam_discard n g)"
      using ok u le up by (simp add: d nasam_ok_def word_le_nat_alt)
    moreover have "nasam_future (nasam_discard n g) i = nasam_future g (i + unat n)"
      by (simp add: d nasam_future_def Let_def u p_def [symmetric] add.assoc add.commute [of i])
    ultimately show ?thesis by simp
  next
    case False
    then have gt: "8 - p < unat n" and Rn: "R \<le> n" by (simp_all add: word_le_nat_alt uR)
    define n1 where "n1 = n - R"
    define N where "N = unat n1"
    have N: "N + 8 = unat n + p" using gt up Rn by (simp add: N_def n1_def unat_sub uR)
    define full where "full = n1 div 8"
    define out where "out = n1 mod 8"
    have ufull: "unat full = N div 8" by (simp add: full_def N_def unat_div)
    have uout: "unat out = N mod 8" by (simp add: out_def N_def unat_mod)
    define g1 where "g1 = (if full > 0 then g\<lparr>counter := plus_assign full (counter g)\<rparr> else g)"
    have c1: "counter g1 = (plus_plus ^^ (N div 8)) (counter g)"
    proof (cases "full > 0")
      case True
      then show ?thesis by (simp add: g1_def plus_assign_funpow [OF cok] ufull)
    next
      case False
      then have "full = 0" using word_neq_0_conv [of full] by auto
      then have "N div 8 = 0" using ufull by simp
      with False show ?thesis by (simp add: g1_def)
    qed
    have ok1: "nasam_ok g1"
      using ok plus_assign_val(1) [OF cok, of full] by (simp add: g1_def nasam_ok_def)
    note r = nasam_refill_buffer_eq [OF ok1]
    define g' where "g' = (nasam_refill_buffer g1)\<lparr>buffer_position := ucast out\<rparr>"
    have d: "nasam_discard n g = g'"
      using False unfolding g'_def g1_def full_def out_def n1_def R_def
      by (simp add: nasam_discard_def Let_def)
    have up': "unat (buffer_position g') = N mod 8"
      using ucast_small [of out] by (simp add: g'_def uout)
    have ok': "nasam_ok g'"
      using r(1) up' by (simp add: g'_def nasam_ok_def word_le_nat_alt)
    have cg': "counter g' = (plus_plus ^^ Suc (N div 8)) (counter g)"
      by (simp add: g'_def r(2) c1)
    have bg': "nasam_buffer g' ! j
        = nasam (state ((plus_plus ^^ Suc (N div 8)) (counter g)) ! (j + 8))" if "j < 8" for j
      using r(4) [OF that] by (simp add: g'_def c1)
    have "nasam_future g' i
        = nasam (state ((plus_plus ^^ ((8 * (N div 8) + unat (buffer_position g') + i) div 8 + 1)) (counter g))
                 ! ((unat (buffer_position g') + i) mod 8 + 8))"
      by (rule nasam_future_refilled [OF cg' bg'])
    moreover have "8 * (N div 8) + N mod 8 = N" by simp
    moreover have "(N mod 8 + i) mod 8 = (N + i) mod 8" by (simp only: mod_add_left_eq)
    ultimately have A: "nasam_future g' i
        = nasam (state ((plus_plus ^^ ((N + i) div 8 + 1)) (counter g)) ! ((N + i) mod 8 + 8))"
      by (simp only: up')
    have q: "unat (buffer_position g) + (i + unat n) = 8 + (N + i)"
      using N by (simp add: p_def)
    have B: "nasam_future g (i + unat n)
        = nasam (state ((plus_plus ^^ ((N + i) div 8 + 1)) (counter g)) ! ((N + i) mod 8 + 8))"
      unfolding nasam_future_def Let_def q by simp
    from A B ok' show ?thesis by (simp only: d)
  qed
qed

lemma nasam_discard_then_next:
  assumes ok: "nasam_ok g"
  shows "fst (nasam_next (nasam_discard n g)) = fst (nasam_last_of_nexts (unat n) g)"
proof -
  from nasam_discard_future [OF ok, of n 0]
  have d: "nasam_ok (nasam_discard n g)"
    "nasam_future (nasam_discard n g) 0 = nasam_future g (unat n)" by simp_all
  show ?thesis
    by (simp only: nasam_next_future(2) [OF d(1)] d(2) nasam_last_of_nexts_future [OF ok])
qed

section \<open>The cryptographic engine: discard against repeated calls\<close>

lemma refill_buffer_eq:
  "refill_buffer P s =
     (if block_counter s = - 1 then Inl Exhausted else Inr (),
      s\<lparr>buffer := P (key s) (nonce s) (block_counter s), word_index := 0,
        block_counter := block_counter s + 1\<rparr>)"
  by (simp add: refill_buffer_def Let_def eq_neg_iff_add_eq_0)

lemma unat_max64: "unat (- 1 :: u64) = 2 ^ 64 - 1"
  by (simp add: unsigned_minus_1_eq_mask mask_eq_exp_minus_1)

lemma unat_lt64: "unat (w :: u64) < 2 ^ 64"
  using unsigned_less [of w] by simp

lemma unat_succ64:
  fixes c :: u64
  assumes "c \<noteq> - 1"
  shows "unat (c + 1) = unat c + 1"
proof -
  from assms have "c + 1 \<noteq> 0" by (simp add: eq_neg_iff_add_eq_0)
  with unat_plus_one_cases [of c] show ?thesis by simp
qed

lemma csprng_future_near:
  "unat (word_index s) + i < 8 \<Longrightarrow> csprng_future P s i = Some (buffer s ! (unat (word_index s) + i))"
  by (simp add: csprng_future_def)

lemma csprng_future_far:
  "unat (word_index s) + i = 8 + r \<Longrightarrow>
   csprng_future P s i =
     (if unat (block_counter s) + r div 8 \<ge> 2 ^ 64 - 1 then None
      else Some (P (key s) (nonce s) (of_nat (unat (block_counter s) + r div 8)) ! (r mod 8)))"
  by (simp add: csprng_future_def Let_def del: power_numeral)

text \<open>The stream of a state whose buffer holds block \<open>B\<close> and whose counter is \<open>B + 1\<close>.\<close>

lemma csprng_future_refilled:
  assumes B: "B < 2 ^ 64 - 1"
    and buf: "buffer s' = P (key s') (nonce s') (of_nat B)"
    and ctr: "unat (block_counter s') = B + 1"
    and wi: "unat (word_index s') = p'"
  shows "csprng_future P s' i =
     (if B + (p' + i) div 8 \<ge> 2 ^ 64 - 1 then None
      else Some (P (key s') (nonce s') (of_nat (B + (p' + i) div 8)) ! ((p' + i) mod 8)))"
proof (cases "p' + i < 8")
  case True
  with B buf wi csprng_future_near [of s' i P] show ?thesis by (simp del: power_numeral)
next
  case False
  then obtain r where r: "p' + i = 8 + r" using le_Suc_ex [of 8 "p' + i"] by auto
  have "unat (word_index s') + i = 8 + r" using r wi by simp
  note f = csprng_future_far [OF this, of P]
  have e: "unat (block_counter s') + r div 8 = B + (p' + i) div 8" by (simp add: ctr r)
  have m: "r mod 8 = (p' + i) mod 8" by (simp add: r)
  show ?thesis unfolding f e m ..
qed

lemma csprng_future_None_mono:
  assumes "csprng_future P s i = None"
  shows "csprng_future P s (i + j) = None"
proof -
  define q where "q = unat (word_index s) + i"
  from assms have q8: "\<not> q < 8" by (auto simp add: csprng_future_def Let_def q_def)
  then obtain r where r: "q = 8 + r" using le_Suc_ex [of 8 q] by auto
  have 1: "unat (word_index s) + i = 8 + r" using r by (simp add: q_def)
  have 2: "unat (word_index s) + (i + j) = 8 + (r + j)" using r by (simp add: q_def)
  have "r div 8 \<le> (r + j) div 8" by (rule div_le_mono) simp
  with assms show ?thesis
    unfolding csprng_future_far [OF 1] csprng_future_far [OF 2]
    by (simp split: if_splits del: power_numeral)
qed

lemma small_cases64:
  fixes p :: u64
  assumes "p \<le> 8"
  shows "unat p < 8 \<or> p = 8"
proof -
  from assms have "unat p \<le> 8" by (simp add: word_le_nat_alt)
  then have "unat p < 8 \<or> unat p = unat (8 :: u64)" by auto
  then show ?thesis by (simp only: word_unat_eq_iff)
qed

lemma csprng_next_future:
  assumes wi: "word_index s \<le> 8"
  shows "yielded (csprng_next P s) = csprng_future P s 0
       \<and> (\<forall>v s'. csprng_next P s = (Inr v, s') \<longrightarrow>
            word_index s' \<le> 8 \<and> (\<forall>i. csprng_future P s' i = csprng_future P s (Suc i)))"
proof -
  from small_cases64 [OF wi] show ?thesis
  proof
    assume lt: "unat (word_index s) < 8"
    then have n8: "\<not> word_index s \<ge> 8" by (simp add: word_le_nat_alt)
    have u1: "unat (word_index s + 1) = unat (word_index s) + 1"
      using lt by (simp add: unat_word_ariths)
    have nx: "csprng_next P s
        = (Inr (buffer s ! unat (word_index s)), s\<lparr>word_index := word_index s + 1\<rparr>)"
      using n8 by (simp add: csprng_next_def)
    have "csprng_future P (s\<lparr>word_index := word_index s + 1\<rparr>) i = csprng_future P s (Suc i)" for i
      by (simp add: csprng_future_def Let_def u1)
    then show ?thesis
      using lt u1 by (simp add: nx csprng_future_near word_le_nat_alt)
  next
    assume e8: "word_index s = 8"
    then have u8: "unat (word_index s) = 8" by simp
    define s1 where "s1 = s\<lparr>buffer := P (key s) (nonce s) (block_counter s), word_index := 0,
        block_counter := block_counter s + 1\<rparr>"
    have f0: "csprng_future P s 0 =
       (if unat (block_counter s) \<ge> 2 ^ 64 - 1 then None
        else Some (P (key s) (nonce s) (block_counter s) ! 0))"
      using csprng_future_far [of s 0 0 P] u8 by (simp del: power_numeral)
    show ?thesis
    proof (cases "block_counter s = - 1")
      case True
      then have "csprng_next P s = (Inl Exhausted, s1)"
        using e8 by (simp add: csprng_next_def refill_buffer_eq s1_def)
      moreover have "unat (block_counter s) = 2 ^ 64 - 1" using True by (simp add: unat_max64)
      ultimately show ?thesis using f0 by (simp del: power_numeral)
    next
      case False
      define s' where "s' = s1\<lparr>word_index := 1\<rparr>"
      have nx: "csprng_next P s = (Inr (P (key s) (nonce s) (block_counter s) ! 0), s')"
        using e8 False by (simp add: csprng_next_def refill_buffer_eq s1_def s'_def)
      have "unat (block_counter s) \<noteq> unat (- 1 :: u64)" using False by (simp only: word_unat_eq_iff not_False_eq_True)
      then have B: "unat (block_counter s) < 2 ^ 64 - 1"
        using unat_lt64 [of "block_counter s"] by (simp add: unat_max64 del: power_numeral)
      have fut: "csprng_future P s' i = csprng_future P s (Suc i)" for i
      proof -
        have "csprng_future P s' i =
          (if unat (block_counter s) + (1 + i) div 8 \<ge> 2 ^ 64 - 1 then None
           else Some (P (key s') (nonce s') (of_nat (unat (block_counter s) + (1 + i) div 8)) ! ((1 + i) mod 8)))"
          by (rule csprng_future_refilled [OF B])
             (simp_all add: s'_def s1_def unat_succ64 [OF False])
        moreover have "unat (word_index s) + Suc i = 8 + (1 + i)" using u8 by simp
        from csprng_future_far [OF this, of P]
        have "csprng_future P s (Suc i) =
          (if unat (block_counter s) + (1 + i) div 8 \<ge> 2 ^ 64 - 1 then None
           else Some (P (key s) (nonce s) (of_nat (unat (block_counter s) + (1 + i) div 8)) ! ((1 + i) mod 8)))" .
        ultimately show ?thesis by (simp add: s'_def s1_def del: power_numeral)
      qed
      have "yielded (csprng_next P s) = csprng_future P s 0"
        using B f0 by (simp add: nx del: power_numeral)
      moreover have "word_index s' \<le> 8" by (simp add: s'_def)
      ultimately show ?thesis using fut by (simp add: nx)
    qed
  qed
qed

lemma last_of_nexts_future:
  "word_index s \<le> 8 \<Longrightarrow> yielded (last_of_nexts P k s) = csprng_future P s k"
proof (induction k arbitrary: s)
  case 0
  then show ?case using csprng_next_future [of s P] by simp
next
  case (Suc k)
  note nf = csprng_next_future [OF Suc.prems, of P]
  obtain r s' where nx: "csprng_next P s = (r, s')" by (cases "csprng_next P s")
  show ?case
  proof (cases r)
    case (Inl e)
    with nf nx have "csprng_future P s 0 = None" by simp
    from csprng_future_None_mono [OF this, of "Suc k"] Inl nx show ?thesis by simp
  next
    case (Inr v)
    with nf nx have "word_index s' \<le> 8" "csprng_future P s' k = csprng_future P s (Suc k)"
      by simp_all
    with Suc.IH [of s'] Inr nx show ?thesis by simp
  qed
qed

lemma discard_far:
  assumes n0: "n \<noteq> 0" and far: "\<not> n < 8 - word_index s"
  defines "full \<equiv> (n - (8 - word_index s)) div 8"
    and "remainder \<equiv> (n - (8 - word_index s)) mod 8"
  shows "discard P n s =
     (if full > 0 \<and> block_counter s > - 1 - full then (Inl DiscardOverflow, s\<lparr>word_index := 8\<rparr>)
      else if remainder \<noteq> 0
      then (if block_counter s + full = - 1
            then (Inl Exhausted,
                  s\<lparr>buffer := P (key s) (nonce s) (block_counter s + full), word_index := 0,
                    block_counter := block_counter s + full + 1\<rparr>)
            else (Inr (),
                  s\<lparr>buffer := P (key s) (nonce s) (block_counter s + full),
                    word_index := remainder,
                    block_counter := block_counter s + full + 1\<rparr>))
      else (Inr (), s\<lparr>word_index := 8, block_counter := block_counter s + full\<rparr>))"
proof (cases "full > 0")
  case True
  then show ?thesis
    using n0 far unfolding full_def remainder_def
    by (simp add: discard_def Let_def refill_buffer_eq)
next
  case False
  then have "full = 0" using word_neq_0_conv [of full] by auto
  then show ?thesis
    using n0 far unfolding full_def remainder_def
    by (simp add: discard_def Let_def refill_buffer_eq)
qed

lemma discard_future:
  assumes wi: "word_index s \<le> 8"
  shows "case discard P n s of
           (Inl e, s') \<Rightarrow> csprng_future P s (unat n) = None
         | (Inr u, s') \<Rightarrow> word_index s' \<le> 8
              \<and> (\<forall>i. csprng_future P s' i = csprng_future P s (i + unat n))"
proof -
  define p where "p = unat (word_index s)"
  define c where "c = unat (block_counter s)"
  from wi have up: "p \<le> 8" by (simp add: word_le_nat_alt p_def)
  have uR: "unat (8 - word_index s) = 8 - p" using wi by (simp add: unat_sub p_def)
  consider (zero) "n = 0" | (near) "n \<noteq> 0" "n < 8 - word_index s"
    | (far) "n \<noteq> 0" "\<not> n < 8 - word_index s" by blast
  then show ?thesis
  proof cases
    case zero
    then show ?thesis using wi by (simp add: discard_def)
  next
    case near
    then have lt: "unat n < 8 - p" by (simp add: word_less_nat_alt uR)
    then have u: "unat (word_index s + n) = p + unat n"
      by (simp add: unat_word_ariths p_def)
    have d: "discard P n s = (Inr (), s\<lparr>word_index := word_index s + n\<rparr>)"
      using near by (simp add: discard_def Let_def)
    have "csprng_future P (s\<lparr>word_index := word_index s + n\<rparr>) i = csprng_future P s (i + unat n)" for i
      by (simp add: csprng_future_def Let_def u p_def [symmetric] add.assoc add.commute [of i])
    then show ?thesis using lt u by (simp add: d word_le_nat_alt)
  next
    case far
    define full where "full = (n - (8 - word_index s)) div 8"
    define remainder where "remainder = (n - (8 - word_index s)) mod 8"
    define N where "N = unat (n - (8 - word_index s))"
    from far(2) have Rn: "8 - word_index s \<le> n" by simp
    have N: "8 + N = p + unat n"
      using Rn up by (simp add: N_def unat_sub uR word_le_nat_alt)
    have uf: "unat full = N div 8" by (simp add: full_def N_def unat_div)
    have ur: "unat remainder = N mod 8" by (simp add: remainder_def N_def unat_mod)
    have cb: "c < 2 ^ 64" unfolding c_def by (rule unat_lt64)
    have "N < 2 ^ 64" unfolding N_def by (rule unat_lt64)
    then have fb: "N div 8 < 2 ^ 64" by (rule le_less_trans [OF div_le_dividend])
    have umf: "unat (- 1 - full) = 2 ^ 64 - 1 - N div 8"
      by (simp add: unat_sub unat_max64 uf del: power_numeral)
    have ov: "block_counter s > - 1 - full \<longleftrightarrow> 2 ^ 64 \<le> c + N div 8"
      using fb by (simp add: word_less_nat_alt umf c_def del: power_numeral) arith
    have q: "unat (word_index s) + (i + unat n) = 8 + (N + i)" for i
      using N by (simp add: p_def)
    have fs: "csprng_future P s (i + unat n) =
       (if c + (N + i) div 8 \<ge> 2 ^ 64 - 1 then None
        else Some (P (key s) (nonce s) (of_nat (c + (N + i) div 8)) ! ((N + i) mod 8)))" for i
      using csprng_future_far [OF q, of P] by (simp only: c_def)
    note d = discard_far [OF far, of P, folded full_def remainder_def]
    show ?thesis
    proof (cases "full > 0 \<and> block_counter s > - 1 - full")
      case True
      then have "(2::nat) ^ 64 \<le> c + N div 8" using ov by (simp del: power_numeral)
      then have "(2::nat) ^ 64 - 1 \<le> c + N div 8" by arith
      then have "csprng_future P s (unat n) = None"
        using fs [of 0] by (simp del: power_numeral)
      with True show ?thesis by (simp add: d)
    next
      case False
      have nov: "c + N div 8 < 2 ^ 64"
      proof (cases "full > 0")
        case True
        with False ov show ?thesis by (simp del: power_numeral)
      next
        case False
        then have "full = 0" using word_neq_0_conv [of full] by auto
        then have "N div 8 = 0" using uf by simp
        with cb show ?thesis by (simp del: power_numeral)
      qed
      then have ucf: "unat (block_counter s + full) = c + N div 8"
        by (simp add: unat_word_ariths uf c_def del: power_numeral)
      have ocf: "block_counter s + full = of_nat (c + N div 8)"
        by (simp only: ucf [symmetric]) simp
      show ?thesis
      proof (cases "remainder = 0")
        case True
        then have r0: "N mod 8 = 0" using ur by simp
        define s' where "s' = s\<lparr>word_index := 8, block_counter := block_counter s + full\<rparr>"
        have ds: "discard P n s = (Inr (), s')" using False True by (simp add: d s'_def)
        have "csprng_future P s' i = csprng_future P s (i + unat n)" for i
        proof -
          have "unat (word_index s') + i = 8 + i" by (simp add: s'_def)
          from csprng_future_far [OF this, of P]
          have "csprng_future P s' i =
            (if c + N div 8 + i div 8 \<ge> 2 ^ 64 - 1 then None
             else Some (P (key s) (nonce s) (of_nat (c + N div 8 + i div 8)) ! (i mod 8)))"
            by (simp add: s'_def ucf del: power_numeral)
          moreover have "(N + i) div 8 = N div 8 + i div 8" "(N + i) mod 8 = i mod 8"
            using r0 by (simp_all add: div_add1_eq mod_add_eq mod_add_left_eq [symmetric])
          ultimately show ?thesis by (simp only: fs add.assoc)
        qed
        then show ?thesis by (simp add: ds s'_def)
      next
        case rem: False
        show ?thesis
        proof (cases "block_counter s + full = - 1")
          case True
          then have "c + N div 8 = 2 ^ 64 - 1" using ucf by (simp add: unat_max64)
          then have "csprng_future P s (unat n) = None"
            using fs [of 0] by (simp del: power_numeral)
          with False rem True show ?thesis by (simp add: d)
        next
          case nex: False
          define s' where "s' = s\<lparr>buffer := P (key s) (nonce s) (block_counter s + full),
              word_index := remainder, block_counter := block_counter s + full + 1\<rparr>"
          have ds: "discard P n s = (Inr (), s')" using False rem nex by (simp add: d s'_def)
          have "unat (block_counter s + full) \<noteq> unat (- 1 :: u64)"
            using nex by (simp only: word_unat_eq_iff not_False_eq_True)
          then have B: "c + N div 8 < 2 ^ 64 - 1"
            using nov ucf by (simp add: unat_max64 del: power_numeral)
          have r8: "N mod 8 < 8" by simp
          have "csprng_future P s' i = csprng_future P s (i + unat n)" for i
          proof -
            have "csprng_future P s' i =
              (if c + N div 8 + (N mod 8 + i) div 8 \<ge> 2 ^ 64 - 1 then None
               else Some (P (key s') (nonce s') (of_nat (c + N div 8 + (N mod 8 + i) div 8))
                          ! ((N mod 8 + i) mod 8)))"
            proof (rule csprng_future_refilled [OF B])
              show "buffer s' = P (key s') (nonce s') (of_nat (c + N div 8))"
                by (simp add: s'_def ocf)
              show "unat (block_counter s') = c + N div 8 + 1"
                using unat_succ64 [OF nex] ucf by (simp add: s'_def)
              show "unat (word_index s') = N mod 8" by (simp add: s'_def ur)
            qed
            moreover have "(N + i) div 8 = N div 8 + (N mod 8 + i) div 8"
              by (simp add: div_add1_eq [of N i] div_add1_eq [of "N mod 8" i])
            moreover have "(N mod 8 + i) mod 8 = (N + i) mod 8" by (simp only: mod_add_left_eq)
            ultimately show ?thesis by (simp add: fs s'_def add.assoc del: power_numeral)
          qed
          moreover have "word_index s' \<le> 8"
            using ur r8 by (simp add: s'_def word_le_nat_alt)
          ultimately show ?thesis by (simp add: ds)
        qed
      qed
    qed
  qed
qed

lemma csprng_discard_then_next:
  assumes wi: "word_index s \<le> 8"
  shows "yielded (discard_then_next P n s) = yielded (last_of_nexts P (unat n) s)"
proof -
  note df = discard_future [OF wi, of P n]
  obtain r s' where d: "discard P n s = (r, s')" by (cases "discard P n s")
  show ?thesis
  proof (cases r)
    case (Inl e)
    with df d show ?thesis
      by (simp add: discard_then_next_def last_of_nexts_future [OF wi])
  next
    case (Inr u)
    with df d have s': "word_index s' \<le> 8" "csprng_future P s' 0 = csprng_future P s (unat n)"
      by simp_all
    from csprng_next_future [OF s'(1), of P] s'(2) Inr d show ?thesis
      by (simp add: discard_then_next_def last_of_nexts_future [OF wi])
  qed
qed

text \<open>
  Claim C1. For both engines, every state whose cursor is in range and every \<open>n\<close>:
  \<^verbatim>\<open>discard(n)\<close> followed by \<^verbatim>\<open>operator()\<close> yields the same value as \<open>n + 1\<close> calls of
  \<^verbatim>\<open>operator()\<close> of which only the last result is kept. For the cryptographic engine a
  sequence that throws yields no value, on both sides alike.
\<close>

theorem discard_then_next_is_last_of_repeated_next:
  "(nasam_ok g \<longrightarrow>
      fst (nasam_next (nasam_discard n g)) = fst (nasam_last_of_nexts (unat n) g))
   \<and> (word_index s \<le> 8 \<longrightarrow>
      yielded (discard_then_next P n s) = yielded (last_of_nexts P (unat n) s))"
  using nasam_discard_then_next [of g n] csprng_discard_then_next [of s P n] by blast

theorem discard_then_next_is_last_of_repeated_next_witness:
  "nasam_ok \<lparr>counter = new_Counter_1024, nasam_buffer = replicate 8 0, buffer_position = 8\<rparr>
   \<and> fst (nasam_next (nasam_discard 20
          \<lparr>counter = new_Counter_1024, nasam_buffer = replicate 8 0, buffer_position = 8\<rparr>))
     = fst (nasam_last_of_nexts (unat (20 :: u64))
          \<lparr>counter = new_Counter_1024, nasam_buffer = replicate 8 0, buffer_position = 8\<rparr>)
   \<and> word_index \<lparr>key = replicate 8 0, nonce = [0, 0], block_counter = 0,
                  buffer = replicate 8 0, word_index = 8\<rparr> \<le> 8
   \<and> yielded (discard_then_next sample_permutation 20
          \<lparr>key = replicate 8 0, nonce = [0, 0], block_counter = 0,
           buffer = replicate 8 0, word_index = 8\<rparr>)
     = yielded (last_of_nexts sample_permutation (unat (20 :: u64))
          \<lparr>key = replicate 8 0, nonce = [0, 0], block_counter = 0,
           buffer = replicate 8 0, word_index = 8\<rparr>)"
proof -
  have 1: "nasam_ok \<lparr>counter = new_Counter_1024, nasam_buffer = replicate 8 0, buffer_position = 8\<rparr>"
    by (simp add: nasam_ok_def counter_ok_new)
  have 2: "word_index \<lparr>key = replicate 8 0, nonce = [0, 0], block_counter = 0,
                  buffer = replicate 8 0, word_index = 8\<rparr> \<le> 8" by simp
  from discard_then_next_is_last_of_repeated_next
    [of "\<lparr>counter = new_Counter_1024, nasam_buffer = replicate 8 0, buffer_position = 8\<rparr>" 20
        "\<lparr>key = replicate 8 0, nonce = [0, 0], block_counter = 0,
          buffer = replicate 8 0, word_index = 8\<rparr>" sample_permutation] 1 2
  show ?thesis by blast
qed

section \<open>The cryptographic engine: exhaustion and overflow of the block counter\<close>

lemma future_outputs_buffer:
  assumes "unat (word_index s) + k \<le> 8"
  shows "future_outputs P k s = map (\<lambda>i. Inr (buffer s ! (unat (word_index s) + i))) [0..<k]"
  using assms
proof (induction k arbitrary: s)
  case 0
  show ?case by simp
next
  case (Suc k)
  then have lt: "unat (word_index s) < 8" by simp
  then have n8: "\<not> word_index s \<ge> 8" by (simp add: word_le_nat_alt)
  have u1: "unat (word_index s + 1) = unat (word_index s) + 1"
    using lt by (simp add: unat_word_ariths)
  define s' where "s' = s\<lparr>word_index := word_index s + 1\<rparr>"
  have nx: "csprng_next P s = (Inr (buffer s ! unat (word_index s)), s')"
    using n8 by (simp add: csprng_next_def s'_def)
  have "unat (word_index s') + k \<le> 8" using Suc.prems u1 by (simp add: s'_def)
  from Suc.IH [OF this]
  have "future_outputs P k s' = map (\<lambda>i. Inr (buffer s ! (unat (word_index s) + Suc i))) [0..<k]"
    by (simp add: s'_def u1)
  then have "future_outputs P (Suc k) s
      = Inr (buffer s ! (unat (word_index s) + 0))
        # map ((\<lambda>i. Inr (buffer s ! (unat (word_index s) + i))) \<circ> Suc) [0..<k]"
    by (simp add: nx o_def)
  also have "\<dots> = map (\<lambda>i. Inr (buffer s ! (unat (word_index s) + i))) (0 # map Suc [0..<k])"
    by (simp only: list.map map_map)
  also have "0 # map Suc [0..<k] = [0..<Suc k]"
    by (simp only: map_Suc_upt upt_conv_Cons [of 0 "Suc k"] zero_less_Suc if_True)
  finally show ?case .
qed

text \<open>
  Claim C9. When \<^verbatim>\<open>refill_buffer\<close> detects exhaustion (which it does exactly at block counter
  \<open>2 ^ 64 - 1\<close>), the exception leaves the buffer overwritten with the block of counter
  \<open>2 ^ 64 - 1\<close>, the word index 0 and the block counter wrapped to 0. The engine stays
  usable: the next eight calls of \<^verbatim>\<open>operator()\<close> return the words of that buffer without
  throwing, and the eight after them the words of the block of counter 0 under the same key
  and nonce.
\<close>

theorem refill_exhaustion_leaves_usable_engine:
  fixes P :: permutation and s :: csprng
  assumes full: "word_index s = 8" and last: "block_counter s = - 1"
  defines "s' \<equiv> s\<lparr>buffer := P (key s) (nonce s) (- 1), word_index := 0, block_counter := 0\<rparr>"
  shows "refill_buffer P s = (Inl Exhausted, s')
       \<and> csprng_next P s = (Inl Exhausted, s')
       \<and> (\<forall>t. fst (refill_buffer P t) = Inl Exhausted \<longleftrightarrow> block_counter t = - 1)
       \<and> future_outputs P 8 s' = map (\<lambda>i. Inr (P (key s) (nonce s) (- 1) ! i)) [0..<8]
       \<and> (\<forall>i < 8. yielded (last_of_nexts P i s') = Some (P (key s) (nonce s) (- 1) ! i))
       \<and> (\<forall>i < 8. yielded (last_of_nexts P (8 + i) s') = Some (P (key s) (nonce s) 0 ! i))"
proof -
  have r: "refill_buffer P s = (Inl Exhausted, s')"
    using last by (simp add: refill_buffer_eq s'_def)
  then have n: "csprng_next P s = (Inl Exhausted, s')"
    using full by (simp add: csprng_next_def)
  have t: "fst (refill_buffer P t) = Inl Exhausted \<longleftrightarrow> block_counter t = - 1" for t
    by (simp add: refill_buffer_eq)
  have w: "word_index s' \<le> 8" "unat (word_index s') = 0" by (simp_all add: s'_def)
  have f: "future_outputs P 8 s' = map (\<lambda>i. Inr (P (key s) (nonce s) (- 1) ! i)) [0..<8]"
    using future_outputs_buffer [of s' 8 P] by (simp add: s'_def)
  have a: "yielded (last_of_nexts P i s') = Some (P (key s) (nonce s) (- 1) ! i)" if "i < 8" for i
    using that csprng_future_near [of s' i P]
    by (simp add: last_of_nexts_future [OF w(1)] w(2)) (simp add: s'_def)
  have b: "yielded (last_of_nexts P (8 + i) s') = Some (P (key s) (nonce s) 0 ! i)" if "i < 8" for i
  proof -
    have "unat (word_index s') + (8 + i) = 8 + i" by (simp add: w(2))
    from csprng_future_far [OF this, of P] that show ?thesis
      by (simp add: last_of_nexts_future [OF w(1)]) (simp add: s'_def)
  qed
  from r n t f a b show ?thesis by blast
qed

theorem refill_exhaustion_leaves_usable_engine_witness:
  "word_index \<lparr>key = replicate 8 0, nonce = [0, 0], block_counter = - 1,
               buffer = replicate 8 0, word_index = 8\<rparr> = 8
   \<and> block_counter \<lparr>key = replicate 8 0, nonce = [0, 0], block_counter = - 1,
                    buffer = replicate 8 0, word_index = 8\<rparr> = - 1
   \<and> csprng_next sample_permutation
         \<lparr>key = replicate 8 0, nonce = [0, 0], block_counter = - 1,
          buffer = replicate 8 0, word_index = 8\<rparr>
     = (Inl Exhausted,
        \<lparr>key = replicate 8 0, nonce = [0, 0], block_counter = 0,
         buffer = sample_permutation (replicate 8 0) [0, 0] (- 1), word_index = 0\<rparr>)"
  using refill_exhaustion_leaves_usable_engine
    [of "\<lparr>key = replicate 8 0, nonce = [0, 0], block_counter = - 1,
          buffer = replicate 8 0, word_index = 8\<rparr>" sample_permutation]
  by simp

text \<open>
  Claim C5, as amended. Let \<open>n > 0\<close> exceed what the current buffer holds, and let
  \<open>full_blocks\<close> and \<open>remainder\<close> be the quotient and remainder by 8 of the outputs to skip
  beyond the buffer. \<^verbatim>\<open>discard(n)\<close> fails with its own overflow condition exactly when
  \<open>block_counter + full_blocks\<close> exceeds \<open>2 ^ 64 - 1\<close>, and then key, nonce, block counter
  and buffer are unchanged. Otherwise the block counter is advanced by \<open>full_blocks\<close>, and
  by one more when \<open>remainder\<close> is not zero, for the block that the final refill generates;
  that refill throws its exhaustion condition exactly when it generates the block of counter
  \<open>2 ^ 64 - 1\<close>.
\<close>

theorem discard_overflow_detection:
  fixes P :: permutation and s :: csprng and n :: u64
  defines "full_blocks \<equiv> (n - (8 - word_index s)) div 8"
    and "remainder \<equiv> (n - (8 - word_index s)) mod 8"
  assumes n0: "n \<noteq> 0" and far: "\<not> n < 8 - word_index s"
  shows "(fst (discard P n s) = Inl DiscardOverflow
            \<longleftrightarrow> 2 ^ 64 \<le> unat (block_counter s) + unat full_blocks)
       \<and> (fst (discard P n s) = Inl DiscardOverflow \<longrightarrow>
            key (snd (discard P n s)) = key s \<and> nonce (snd (discard P n s)) = nonce s
            \<and> block_counter (snd (discard P n s)) = block_counter s
            \<and> buffer (snd (discard P n s)) = buffer s)
       \<and> (fst (discard P n s) \<noteq> Inl DiscardOverflow \<longrightarrow>
            block_counter (snd (discard P n s))
              = block_counter s + full_blocks + (if remainder \<noteq> 0 then 1 else 0)
            \<and> (fst (discard P n s) = Inl Exhausted
                 \<longleftrightarrow> remainder \<noteq> 0 \<and> block_counter s + full_blocks = - 1))"
proof -
  note d = discard_far [OF n0 far, of P, folded full_blocks_def remainder_def]
  have umf: "unat (- 1 - full_blocks) = 2 ^ 64 - 1 - unat full_blocks"
    by (simp add: unat_sub unat_max64 del: power_numeral)
  have c: "unat (block_counter s) < 2 ^ 64" by (rule unat_lt64)
  have f: "unat full_blocks < 2 ^ 64" by (rule unat_lt64)
  have ov: "block_counter s > - 1 - full_blocks
      \<longleftrightarrow> 2 ^ 64 \<le> unat (block_counter s) + unat full_blocks"
    using f by (simp add: word_less_nat_alt umf del: power_numeral) arith
  have z: "\<not> full_blocks > 0 \<Longrightarrow> \<not> 2 ^ 64 \<le> unat (block_counter s) + unat full_blocks"
  proof -
    assume "\<not> full_blocks > 0"
    then have "full_blocks = 0" using word_neq_0_conv [of full_blocks] by auto
    with c show ?thesis by (simp del: power_numeral)
  qed
  show ?thesis
  proof (cases "full_blocks > 0 \<and> block_counter s > - 1 - full_blocks")
    case True
    then show ?thesis using ov by (simp add: d del: power_numeral)
  next
    case False
    then have "\<not> 2 ^ 64 \<le> unat (block_counter s) + unat full_blocks"
      using ov z by blast
    with False show ?thesis by (simp add: d del: power_numeral)
  qed
qed

theorem discard_overflow_detection_witness:
  "(13 :: u64) \<noteq> 0
   \<and> \<not> (13 :: u64) < 8 - word_index \<lparr>key = replicate 8 0, nonce = [0, 0], block_counter = - 1,
                                      buffer = replicate 8 0, word_index = 3\<rparr>
   \<and> fst (discard sample_permutation 13
            \<lparr>key = replicate 8 0, nonce = [0, 0], block_counter = - 1,
             buffer = replicate 8 0, word_index = 3\<rparr>) = Inl DiscardOverflow
   \<and> block_counter (snd (discard sample_permutation 13
            \<lparr>key = replicate 8 0, nonce = [0, 0], block_counter = - 1,
             buffer = replicate 8 0, word_index = 3\<rparr>)) = - 1"
  using discard_overflow_detection
    [of 13 "\<lparr>key = replicate 8 0, nonce = [0, 0], block_counter = - 1,
             buffer = replicate 8 0, word_index = 3\<rparr>" sample_permutation]
  by (simp add: unat_max64)

text \<open>
  The claim as stated fails where the overflow is found by the final refill: skipping one
  output from an exhausted buffer at block counter \<open>2 ^ 64 - 1\<close> throws the exhaustion
  condition of \<^verbatim>\<open>refill_buffer\<close>, after the buffer has been overwritten and the counter has
  wrapped to 0.
\<close>

theorem discard_overflow_found_by_refill:
  "fst (discard sample_permutation 1
          \<lparr>key = replicate 8 0, nonce = [0, 0], block_counter = - 1,
           buffer = replicate 8 0, word_index = 8\<rparr>) = Inl Exhausted
   \<and> block_counter (snd (discard sample_permutation 1
          \<lparr>key = replicate 8 0, nonce = [0, 0], block_counter = - 1,
           buffer = replicate 8 0, word_index = 8\<rparr>)) = 0
   \<and> word_index (snd (discard sample_permutation 1
          \<lparr>key = replicate 8 0, nonce = [0, 0], block_counter = - 1,
           buffer = replicate 8 0, word_index = 8\<rparr>)) = 0
   \<and> buffer (snd (discard sample_permutation 1
          \<lparr>key = replicate 8 0, nonce = [0, 0], block_counter = - 1,
           buffer = replicate 8 0, word_index = 8\<rparr>)) ! 7 = - 1
   \<and> fst (discard sample_permutation 1
          \<lparr>key = replicate 8 0, nonce = [0, 0], block_counter = - 1,
           buffer = replicate 8 0, word_index = 8\<rparr>) \<noteq> Inl DiscardOverflow
   \<and> snd (discard sample_permutation 1
          \<lparr>key = replicate 8 0, nonce = [0, 0], block_counter = - 1,
           buffer = replicate 8 0, word_index = 8\<rparr>)
       \<noteq> \<lparr>key = replicate 8 0, nonce = [0, 0], block_counter = - 1,
           buffer = replicate 8 0, word_index = 8\<rparr>"
  by (simp add: discard_def refill_buffer_def Let_def sample_permutation_def)

text \<open>On the overflow path of \<^verbatim>\<open>discard\<close> itself the word index has been set to 8 before
  the exception is thrown.\<close>

lemma discard_overflow_word_index:
  assumes "fst (discard P n s) = Inl DiscardOverflow"
  shows "word_index (snd (discard P n s)) = 8"
proof -
  have "n \<noteq> 0" using assms by (auto simp add: discard_def)
  moreover have "\<not> n < 8 - word_index s"
    using assms by (cases "n = 0") (auto simp add: discard_def Let_def)
  ultimately show ?thesis
    using assms by (simp add: discard_far split: if_splits)
qed

section \<open>The cryptographic engine: equality\<close>

lemma xor_zero_iff:
  fixes a b :: "'a::len word"
  shows "a XOR b = 0 \<longleftrightarrow> a = b"
proof
  assume "a XOR b = 0"
  then have "a XOR (a XOR b) = a" by simp
  then show "a = b" by (simp add: xor.assoc [symmetric])
next
  assume "a = b"
  then show "a XOR b = 0" by simp
qed

lemma fold_or_xor_zero:
  fixes xs ys :: "'a::len word list"
  shows "fold (\<lambda>i d. d OR (xs ! i XOR ys ! i)) [0..<k] d0 = 0
       \<longleftrightarrow> d0 = 0 \<and> (\<forall>i<k. xs ! i = ys ! i)"
  by (induction k) (auto simp add: or_eq_0_iff xor_zero_iff less_Suc_eq)

lemma list8_eq_iff:
  "length xs = 8 \<Longrightarrow> length ys = 8 \<Longrightarrow> xs = ys \<longleftrightarrow> (\<forall>i<8. xs ! i = ys ! i)"
  by (simp add: list_eq_iff_nth_eq)

lemma csprng_eq_iff:
  assumes "csprng_ok lhs" "csprng_ok rhs"
  shows "csprng_eq lhs rhs \<longleftrightarrow>
     key lhs = key rhs \<and> nonce lhs = nonce rhs \<and> block_counter lhs = block_counter rhs
     \<and> word_index lhs = word_index rhs \<and> (word_index lhs < 8 \<longrightarrow> buffer lhs = buffer rhs)"
proof -
  from assms have k: "key lhs = key rhs \<longleftrightarrow> (\<forall>i<8. key lhs ! i = key rhs ! i)"
    and b: "buffer lhs = buffer rhs \<longleftrightarrow> (\<forall>i<8. buffer lhs ! i = buffer rhs ! i)"
    by (simp_all add: csprng_ok_def list8_eq_iff)
  show ?thesis
    unfolding csprng_eq_def Let_def k b by (auto simp add: fold_or_xor_zero)
qed

text \<open>
  Claim C7. Two engines that agree on key, nonce, block counter and word index, with word
  index 8, compare equal whatever their buffers hold; two engines with different keys never
  compare equal; and when the word index is below 8, equality holds exactly when the buffers
  agree as well.
\<close>

theorem csprng_equality:
  assumes ok: "csprng_ok lhs" "csprng_ok rhs"
  shows "(key lhs = key rhs \<and> nonce lhs = nonce rhs \<and> block_counter lhs = block_counter rhs
          \<and> word_index lhs = word_index rhs \<and> word_index lhs = 8 \<longrightarrow> csprng_eq lhs rhs)
       \<and> (key lhs \<noteq> key rhs \<longrightarrow> \<not> csprng_eq lhs rhs)
       \<and> (word_index lhs < 8 \<longrightarrow>
            (csprng_eq lhs rhs \<longleftrightarrow>
               key lhs = key rhs \<and> nonce lhs = nonce rhs \<and> block_counter lhs = block_counter rhs
               \<and> word_index lhs = word_index rhs \<and> buffer lhs = buffer rhs))"
  unfolding csprng_eq_iff [OF ok] by auto

theorem csprng_equality_witness:
  "csprng_ok \<lparr>key = replicate 8 7, nonce = [1, 2], block_counter = 5,
              buffer = replicate 8 0, word_index = 8\<rparr>
   \<and> csprng_ok \<lparr>key = replicate 8 7, nonce = [1, 2], block_counter = 5,
                buffer = replicate 8 9, word_index = 8\<rparr>
   \<and> csprng_eq \<lparr>key = replicate 8 7, nonce = [1, 2], block_counter = 5,
                buffer = replicate 8 0, word_index = 8\<rparr>
               \<lparr>key = replicate 8 7, nonce = [1, 2], block_counter = 5,
                buffer = replicate 8 9, word_index = 8\<rparr>"
  using csprng_equality
    [of "\<lparr>key = replicate 8 7, nonce = [1, 2], block_counter = 5,
          buffer = replicate 8 0, word_index = 8\<rparr>"
        "\<lparr>key = replicate 8 7, nonce = [1, 2], block_counter = 5,
          buffer = replicate 8 9, word_index = 8\<rparr>"]
  by (simp add: csprng_ok_def)

section \<open>The cryptographic engine: serialization\<close>

lemma length_le_bytes: "length (le_bytes n w) = n"
  by (induction n arbitrary: w) simp_all

lemma of_le_bytes_le_bytes:
  fixes w :: "'a::len word"
  shows "(of_le_bytes (le_bytes n w) :: 'a word) = take_bit (8 * n) w"
proof (induction n arbitrary: w)
  case 0
  show ?case by simp
next
  case (Suc n)
  have "(ucast (ucast w :: u8) :: 'a word) OR push_bit 8 (take_bit (8 * n) (drop_bit 8 w))
      = take_bit (8 * Suc n) w"
    by (rule bit_word_eqI) (auto simp add: bit_simps)
  with Suc.IH [of "drop_bit 8 w"] show ?case by simp
qed

lemma of_le_bytes_4: "of_le_bytes (le_bytes 4 (w :: u32)) = w"
  using of_le_bytes_le_bytes [of 4 w] by (simp add: take_bit_word_eq_self)

lemma of_le_bytes_8: "of_le_bytes (le_bytes 8 (w :: u64)) = w"
  using of_le_bytes_le_bytes [of 8 w] by (simp add: take_bit_word_eq_self)

lemma length_concat_le_bytes: "length (concat (map (le_bytes n) ws)) = n * length ws"
  by (induction ws) (simp_all add: length_le_bytes)

lemma words32_concat: "words32 (length ws) (concat (map (le_bytes 4) ws)) = ws"
  by (induction ws) (simp_all add: length_le_bytes of_le_bytes_4)

lemma serialize_layout:
  assumes k: "length (key s) = 8" and n: "length (nonce s) = 2"
  shows "length (serialize s) = 65"
    and "take 8 (serialize s) = magic"
    and "serialize s ! 8 = 1"
    and "take 32 (drop 9 (serialize s)) = concat (map (le_bytes 4) (key s))"
    and "take 8 (drop 41 (serialize s)) = concat (map (le_bytes 4) (nonce s))"
    and "take 8 (drop 49 (serialize s)) = le_bytes 8 (block_counter s)"
    and "serialize s ! 57 = ucast (word_index s)"
proof -
  define K where "K = concat (map (le_bytes 4) (key s))"
  define N where "N = concat (map (le_bytes 4) (nonce s))"
  define C where "C = le_bytes 8 (block_counter s)"
  have lK: "length K = 32" and lN: "length N = 8" and lC: "length C = 8" and lM: "length magic = 8"
    by (simp_all add: K_def N_def C_def length_concat_le_bytes length_le_bytes k n magic_def)
  have ser: "serialize s = magic @ [1] @ K @ N @ C @ [ucast (word_index s)] @ replicate 7 0"
    using lK lN by (simp add: serialize_def K_def N_def C_def)
  show "length (serialize s) = 65" by (simp add: ser lK lN lC lM)
  show "take 8 (serialize s) = magic" by (simp add: ser lM)
  show "serialize s ! 8 = 1" by (simp add: ser nth_append lM)
  show "take 32 (drop 9 (serialize s)) = concat (map (le_bytes 4) (key s))"
    by (simp add: ser lM lK K_def [symmetric])
  show "take 8 (drop 41 (serialize s)) = concat (map (le_bytes 4) (nonce s))"
    by (simp add: ser lM lK lN N_def [symmetric])
  show "take 8 (drop 49 (serialize s)) = le_bytes 8 (block_counter s)"
    by (simp add: ser lM lK lN lC C_def [symmetric])
  show "serialize s ! 57 = ucast (word_index s)"
    by (simp add: ser nth_append lM lK lN lC)
qed

lemma length_words32: "length (words32 k bs) = k"
  by (induction k arbitrary: bs) simp_all

lemma ucast_idx_le:
  fixes b :: u8
  assumes "\<not> b > 8"
  shows "(ucast b :: u64) \<le> 8" and "\<not> (ucast b :: u64) < 8 \<Longrightarrow> (ucast b :: u64) = 8"
proof -
  from assms have "unat b \<le> 8" by (simp add: word_less_nat_alt)
  moreover have "unat b < 2 ^ 8"
    using unsigned_less [of b, where ?'a = nat] by simp
  then have "unat b < 2 ^ 64" by simp
  then have "unat (ucast b :: u64) = unat b"
    by (simp add: unsigned_ucast_eq take_bit_nat_eq_self)
  ultimately have le: "unat (ucast b :: u64) \<le> 8" by simp
  then show "(ucast b :: u64) \<le> 8" by (simp add: word_le_nat_alt)
  assume "\<not> (ucast b :: u64) < 8"
  then have "unat (ucast b :: u64) = unat (8 :: u64)" using le by (simp add: word_less_nat_alt)
  then show "(ucast b :: u64) = 8" by (simp only: word_unat_eq_iff)
qed

lemma ucast_word_index:
  fixes w :: u64
  assumes "w \<le> 8"
  shows "(ucast (ucast w :: u8) :: u64) = w" and "\<not> (ucast w :: u8) > 8"
proof -
  from assms have le: "unat w \<le> 8" by (simp add: word_le_nat_alt)
  then have u: "unat (ucast w :: u8) = unat w"
    by (simp add: unsigned_ucast_eq take_bit_nat_eq_self)
  then have "unat (ucast (ucast w :: u8) :: u64) = unat w"
    using le by (simp add: unsigned_ucast_eq unsigned_take_bit_eq take_bit_nat_eq_self)
  then show "(ucast (ucast w :: u8) :: u64) = w" by (simp only: word_unat_eq_iff)
  show "\<not> (ucast w :: u8) > 8" using u le by (simp add: word_less_nat_alt)
qed

lemma stream_read_all:
  "n \<le> length cs \<Longrightarrow> stream_read n t (cs, False) = (take n cs, (drop n cs, False))"
  by (simp add: stream_read_def)

lemma stream_read_short:
  "length cs < n \<Longrightarrow> stream_read n t (cs, False) = (cs @ drop (length cs) t, ([], True))"
  by (simp add: stream_read_def)

lemma stream_get_nth:
  "k < length bs \<Longrightarrow> stream_get (drop k bs, False) = (Some (bs ! k), (drop (Suc k) bs, False))"
  by (simp add: stream_get_def Cons_nth_drop_Suc [symmetric])

lemma deserialize_bad_magic:
  assumes "8 \<le> length bs" and "take 8 bs \<noteq> csprng_literal @ [y]"
  shows "deserialize P y rng bs = (Inl BadMagic, rng)"
  using assms by (simp add: deserialize_def stream_read_all)

text \<open>The operator on a record of full length.\<close>

lemma deserialize_complete:
  assumes len: "65 \<le> length bs"
  shows "deserialize P y rng bs =
     (if take 8 bs \<noteq> csprng_literal @ [y] then (Inl BadMagic, rng)
      else if bs ! 8 \<noteq> 1 then (Inl UnsupportedVersion, rng)
      else (let rng1 = rng\<lparr>key := words32 8 (take 32 (drop 9 bs)),
                           nonce := words32 2 (take 8 (drop 41 bs)),
                           block_counter := of_le_bytes (take 8 (drop 49 bs))\<rparr>
            in if bs ! 57 > 8 then (Inl CorruptedWordIndex, rng1)
               else (let rng2 = rng1\<lparr>word_index := ucast (bs ! 57)\<rparr>
                     in if word_index rng2 < 8
                        then (if block_counter rng2 = 0 then (Inl MidBlockAtZero, rng2)
                              else (Inr (), rng2\<lparr>buffer := P (key rng2) (nonce rng2)
                                                           (block_counter rng2 - 1)\<rparr>))
                        else (Inr (), rng2))))"
proof -
  have r1: "stream_read 8 t (bs, False) = (take 8 bs, (drop 8 bs, False))" for t
    using len by (simp add: stream_read_all)
  have g1: "stream_get (drop 8 bs, False) = (Some (bs ! 8), (drop 9 bs, False))"
    using len stream_get_nth [of 8 bs] by simp
  have r2: "stream_read 32 t (drop 9 bs, False) = (take 32 (drop 9 bs), (drop 41 bs, False))" for t
    using len by (simp add: stream_read_all)
  have r3: "stream_read 8 t (drop 41 bs, False) = (take 8 (drop 41 bs), (drop 49 bs, False))" for t
    using len by (simp add: stream_read_all)
  have r4: "stream_read 8 t (drop 49 bs, False) = (take 8 (drop 49 bs), (drop 57 bs, False))" for t
    using len by (simp add: stream_read_all)
  have g2: "stream_get (drop 57 bs, False) = (Some (bs ! 57), (drop 58 bs, False))"
    using len stream_get_nth [of 57 bs] by simp
  have r5: "stream_read 7 t (drop 58 bs, False) = (take 7 (drop 58 bs), (drop 65 bs, False))" for t
    using len by (simp add: stream_read_all)
  show ?thesis
    by (simp add: deserialize_def r1 g1 r2 r3 r4 g2 r5 Let_def refill_buffer_eq)
qed

text \<open>The operator on a record cut short in its padding.\<close>

lemma deserialize_cut:
  assumes len: "58 \<le> length bs" "length bs < 65"
  shows "deserialize P y rng bs =
     (if take 8 bs \<noteq> csprng_literal @ [y] then (Inl BadMagic, rng)
      else if bs ! 8 \<noteq> 1 then (Inl UnsupportedVersion, rng)
      else (let rng1 = rng\<lparr>key := words32 8 (take 32 (drop 9 bs)),
                           nonce := words32 2 (take 8 (drop 41 bs)),
                           block_counter := of_le_bytes (take 8 (drop 49 bs))\<rparr>
            in if bs ! 57 > 8 then (Inl CorruptedWordIndex, rng1)
               else (Inl StreamReadError, rng1\<lparr>word_index := ucast (bs ! 57)\<rparr>)))"
proof -
  have r1: "stream_read 8 t (bs, False) = (take 8 bs, (drop 8 bs, False))" for t
    using len by (simp add: stream_read_all)
  have g1: "stream_get (drop 8 bs, False) = (Some (bs ! 8), (drop 9 bs, False))"
    using len stream_get_nth [of 8 bs] by simp
  have r2: "stream_read 32 t (drop 9 bs, False) = (take 32 (drop 9 bs), (drop 41 bs, False))" for t
    using len by (simp add: stream_read_all)
  have r3: "stream_read 8 t (drop 41 bs, False) = (take 8 (drop 41 bs), (drop 49 bs, False))" for t
    using len by (simp add: stream_read_all)
  have r4: "stream_read 8 t (drop 49 bs, False) = (take 8 (drop 49 bs), (drop 57 bs, False))" for t
    using len by (simp add: stream_read_all)
  have g2: "stream_get (drop 57 bs, False) = (Some (bs ! 57), (drop 58 bs, False))"
    using len stream_get_nth [of 57 bs] by simp
  have r5: "stream_read 7 t (drop 58 bs, False)
      = (drop 58 bs @ drop (length bs - 58) t, ([], True))" for t
    using len by (simp add: stream_read_short)
  show ?thesis
    by (simp add: deserialize_def r1 g1 r2 r3 r4 g2 r5 Let_def)
qed

lemma serialize_magic: "8 \<le> length (serialize s)" "take 8 (serialize s) = magic"
  by (simp_all add: serialize_def magic_def)

lemma magic_literal: "magic = csprng_literal @ [0]"
  by (simp add: magic_def csprng_literal_def)

lemma restore_bad_magic:
  assumes "y \<noteq> 0"
  shows "deserialize P y rng (serialize s) = (Inl BadMagic, rng)"
  using deserialize_bad_magic [of "serialize s" y P rng] serialize_magic [of s] assms
  by (simp add: magic_literal)

lemma restore_written_record:
  assumes k: "length (key s) = 8" and n: "length (nonce s) = 2" and wi: "word_index s \<le> 8"
  shows "deserialize P 0 rng (serialize s) =
     (let rng2 = rng\<lparr>key := key s, nonce := nonce s, block_counter := block_counter s,
                      word_index := word_index s\<rparr>
      in if word_index s < 8
         then (if block_counter s = 0 then (Inl MidBlockAtZero, rng2)
               else (Inr (), rng2\<lparr>buffer := P (key s) (nonce s) (block_counter s - 1)\<rparr>))
         else (Inr (), rng2))"
proof -
  note l = serialize_layout [OF k n]
  note u = ucast_word_index [OF wi]
  have kk: "words32 8 (concat (map (le_bytes 4) (key s))) = key s"
    using words32_concat [of "key s"] k by simp
  have nn: "words32 2 (concat (map (le_bytes 4) (nonce s))) = nonce s"
    using words32_concat [of "nonce s"] n by simp
  have "65 \<le> length (serialize s)" by (simp add: l(1))
  from deserialize_complete [OF this, of P 0 rng] u(2) show ?thesis
    by (simp add: l kk nn of_le_bytes_8 u(1) magic_literal Let_def)
qed

lemma restore_roundtrip:
  assumes "length (key s) = 8" "length (nonce s) = 2" "word_index s < 8" "block_counter s \<noteq> 0"
    and "buffer s = P (key s) (nonce s) (block_counter s - 1)"
  shows "deserialize P 0 rng (serialize s) = (Inr (), s)"
proof -
  from assms(3) have "word_index s \<le> 8" by simp
  from restore_written_record [OF assms(1,2) this, of P rng] assms(3,4,5) show ?thesis
    by (simp add: Let_def)
qed

lemma restore_mid_block_at_zero:
  assumes "length (key s) = 8" "length (nonce s) = 2" "word_index s < 8" "block_counter s = 0"
  shows "\<exists>e rng'. deserialize P y rng (serialize s) = (Inl e, rng')"
proof (cases "y = 0")
  case True
  from assms(3) have "word_index s \<le> 8" by simp
  from restore_written_record [OF assms(1,2) this, of P rng] assms(3,4) True show ?thesis
    by (simp add: Let_def)
next
  case False
  then show ?thesis by (simp add: restore_bad_magic)
qed

lemma reachable_example:
  "reachable sample_permutation y
     \<lparr>key = replicate 8 0, nonce = [0, 0], block_counter = 1,
      buffer = sample_permutation (replicate 8 0) [0, 0] 0, word_index = 1\<rparr>"
proof -
  define s0 :: csprng where "s0 =
     \<lparr>key = replicate 8 0, nonce = [0, 0], block_counter = 1,
      buffer = sample_permutation (replicate 8 0) [0, 0] 0, word_index = 0\<rparr>"
  have "new_csprng sample_permutation (replicate 8 0) [0, 0] 0 = (Inr (), s0)"
    by (simp add: new_csprng_def refill_buffer_eq s0_def)
  then have "reachable sample_permutation y s0" by (rule constructed) simp_all
  then have "reachable sample_permutation y (snd (csprng_next sample_permutation s0))"
    by (rule after_next)
  then show ?thesis by (simp add: csprng_next_def s0_def)
qed

lemma restore_cut_record:
  assumes k: "length (key s) = 8" and n: "length (nonce s) = 2" and wi: "word_index s \<le> 8"
    and m: "58 \<le> m" "m < 65"
  shows "deserialize P 0 rng (take m (serialize s)) =
     (Inl StreamReadError,
      rng\<lparr>key := key s, nonce := nonce s, block_counter := block_counter s,
          word_index := word_index s\<rparr>)"
proof -
  note l = serialize_layout [OF k n]
  note u = ucast_word_index [OF wi]
  have kk: "words32 8 (concat (map (le_bytes 4) (key s))) = key s"
    using words32_concat [of "key s"] k by simp
  have nn: "words32 2 (concat (map (le_bytes 4) (nonce s))) = nonce s"
    using words32_concat [of "nonce s"] n by simp
  define bs where "bs = take m (serialize s)"
  have len: "58 \<le> length bs" "length bs < 65" using m by (simp_all add: bs_def l(1))
  have t1: "take 8 bs = take 8 (serialize s)"
    using m by (simp add: bs_def)
  have t2: "bs ! 8 = serialize s ! 8" "bs ! 57 = serialize s ! 57"
    using m by (simp_all add: bs_def)
  have t3: "take 32 (drop 9 bs) = take 32 (drop 9 (serialize s))"
    using m by (simp add: bs_def drop_take)
  have t4: "take 8 (drop 41 bs) = take 8 (drop 41 (serialize s))"
    using m by (simp add: bs_def drop_take)
  have t5: "take 8 (drop 49 bs) = take 8 (drop 49 (serialize s))"
    using m by (simp add: bs_def drop_take)
  from deserialize_cut [OF len, of P 0 rng] u(2) show ?thesis
    unfolding bs_def [symmetric]
    by (simp add: t1 t2 t3 t4 t5 l kk nn of_le_bytes_8 u(1) magic_literal Let_def)
qed

lemma restore_exception_keeps_old_buffer:
  "deserialize sample_permutation 0
      \<lparr>key = replicate 8 0, nonce = [0, 0], block_counter = 1,
       buffer = sample_permutation (replicate 8 0) [0, 0] 0, word_index = 1\<rparr>
      (take 60 (serialize
         \<lparr>key = replicate 8 1, nonce = [1, 1], block_counter = 5,
          buffer = sample_permutation (replicate 8 1) [1, 1] 4, word_index = 3\<rparr>))
   = (Inl StreamReadError,
      \<lparr>key = replicate 8 1, nonce = [1, 1], block_counter = 5,
       buffer = sample_permutation (replicate 8 0) [0, 0] 0, word_index = 3\<rparr>)"
  by (simp add: restore_cut_record)

lemma reachable_after_exception:
  "reachable sample_permutation 0
      \<lparr>key = replicate 8 1, nonce = [1, 1], block_counter = 5,
       buffer = sample_permutation (replicate 8 0) [0, 0] 0, word_index = 3\<rparr>"
  using after_restore [OF reachable_example [of 0],
     of "take 60 (serialize
         \<lparr>key = replicate 8 1, nonce = [1, 1], block_counter = 5,
          buffer = sample_permutation (replicate 8 1) [1, 1] 4, word_index = 3\<rparr>)"]
  by (simp only: restore_exception_keeps_old_buffer snd_conv)

lemma restore_after_exception:
  "deserialize sample_permutation 0 rng
      (serialize \<lparr>key = replicate 8 1, nonce = [1, 1], block_counter = 5,
                  buffer = sample_permutation (replicate 8 0) [0, 0] 0, word_index = 3\<rparr>)
   = (Inr (), \<lparr>key = replicate 8 1, nonce = [1, 1], block_counter = 5,
               buffer = sample_permutation (replicate 8 1) [1, 1] 4, word_index = 3\<rparr>)"
  by (simp add: restore_written_record)

lemma outputs_after_exception:
  "future_outputs sample_permutation 1
      \<lparr>key = replicate 8 1, nonce = [1, 1], block_counter = 5,
       buffer = sample_permutation (replicate 8 0) [0, 0] 0, word_index = 3\<rparr> = [Inr 3]"
  "future_outputs sample_permutation 1
      \<lparr>key = replicate 8 1, nonce = [1, 1], block_counter = 5,
       buffer = sample_permutation (replicate 8 1) [1, 1] 4, word_index = 3\<rparr> = [Inr 37]"
  by (simp_all add: csprng_next_def sample_permutation_def upt_rec [of _ 8] upt_rec [of _ "Suc _"])

lemma deserialize_inv:
  assumes "length (key r) = 8" "length (nonce r) = 2" "word_index r \<le> 8"
  shows "length (key (snd (deserialize P y r bs))) = 8
       \<and> length (nonce (snd (deserialize P y r bs))) = 2
       \<and> word_index (snd (deserialize P y r bs)) \<le> 8"
  using assms
  by (auto simp add: deserialize_def Let_def refill_buffer_eq length_words32 ucast_idx_le
      split: prod.splits option.splits if_splits)

lemma reachable_inv:
  assumes "reachable P y s"
  shows "length (key s) = 8 \<and> length (nonce s) = 2 \<and> word_index s \<le> 8"
  using assms
proof (induction rule: reachable.induct)
  case (constructed k n c0 s)
  then show ?case by (auto simp add: new_csprng_def refill_buffer_eq split: if_splits)
next
  case (after_next s)
  then have inv: "length (key s) = 8" "length (nonce s) = 2" "word_index s \<le> 8" by simp_all
  from small_cases64 [OF inv(3)] show ?case
  proof
    assume lt: "unat (word_index s) < 8"
    then have n8: "\<not> word_index s \<ge> 8" and l8: "word_index s < 8"
      by (simp_all add: word_le_nat_alt word_less_nat_alt)
    have u1: "unat (word_index s + 1) = unat (word_index s) + 1"
      using lt by (simp add: unat_word_ariths)
    then have "word_index s + 1 \<le> 8" using lt by (simp add: word_le_nat_alt)
    with inv n8 l8 show ?thesis by (simp add: csprng_next_def)
  next
    assume "word_index s = 8"
    with inv show ?thesis by (simp add: csprng_next_def refill_buffer_eq)
  qed
next
  case (after_discard s n)
  then have inv: "length (key s) = 8" "length (nonce s) = 2" "word_index s \<le> 8" by simp_all
  consider (zero) "n = 0" | (near) "n \<noteq> 0" "n < 8 - word_index s"
    | (far) "n \<noteq> 0" "\<not> n < 8 - word_index s" by blast
  then show ?case
  proof cases
    case zero
    with inv show ?thesis by (simp add: discard_def)
  next
    case near
    have uR: "unat (8 - word_index s) = 8 - unat (word_index s)"
      using inv(3) by (simp add: unat_sub)
    from near have lt: "unat n < 8 - unat (word_index s)" by (simp add: word_less_nat_alt uR)
    then have u: "unat (word_index s + n) = unat (word_index s) + unat n"
      by (simp add: unat_word_ariths)
    then have "word_index s + n \<le> 8" "word_index s < 8"
      using lt by (simp_all add: word_le_nat_alt word_less_nat_alt)
    with inv near show ?thesis by (simp add: discard_def Let_def)
  next
    case far
    have "(n - (8 - word_index s)) mod 8 < 8"
      by (simp add: word_less_nat_alt unat_mod)
    then have "(n - (8 - word_index s)) mod 8 \<le> 8" by simp
    with inv show ?thesis by (simp add: discard_far [OF far])
  qed
next
  case (after_reseed s k n)
  then show ?case by (simp add: reseed_def refill_buffer_eq)
next
  case (after_restore r bs)
  then show ?case by (simp add: deserialize_inv)
qed

text \<open>The records that the reader does accept carry the byte after the literal in place
  of the writer's second zero.\<close>

lemma restore_patched_record:
  assumes k: "length (key s) = 8" and n: "length (nonce s) = 2" and wi: "word_index s \<le> 8"
  shows "deserialize P y rng ((serialize s)[7 := y]) =
     (let rng2 = rng\<lparr>key := key s, nonce := nonce s, block_counter := block_counter s,
                      word_index := word_index s\<rparr>
      in if word_index s < 8
         then (if block_counter s = 0 then (Inl MidBlockAtZero, rng2)
               else (Inr (), rng2\<lparr>buffer := P (key s) (nonce s) (block_counter s - 1)\<rparr>))
         else (Inr (), rng2))"
proof -
  note l = serialize_layout [OF k n]
  note u = ucast_word_index [OF wi]
  have kk: "words32 8 (concat (map (le_bytes 4) (key s))) = key s"
    using words32_concat [of "key s"] k by simp
  have nn: "words32 2 (concat (map (le_bytes 4) (nonce s))) = nonce s"
    using words32_concat [of "nonce s"] n by simp
  define bs where "bs = (serialize s)[7 := y]"
  have len: "65 \<le> length bs" by (simp add: bs_def l(1))
  have "take 8 bs = (take 8 (serialize s))[7 := y]"
    by (simp add: bs_def take_update_swap)
  then have t1: "take 8 bs = csprng_literal @ [y]"
    by (simp add: l(2) magic_def csprng_literal_def)
  have t2: "bs ! 8 = serialize s ! 8" "bs ! 57 = serialize s ! 57"
    by (simp_all add: bs_def)
  have t3: "drop 9 bs = drop 9 (serialize s)" "drop 41 bs = drop 41 (serialize s)"
    "drop 49 bs = drop 49 (serialize s)"
    by (simp_all add: bs_def)
  from deserialize_complete [OF len, of P y rng] u(2) show ?thesis
    unfolding bs_def [symmetric]
    by (simp add: t1 t2 t3 l kk nn of_le_bytes_8 u(1) Let_def)
qed

text \<open>Whatever byte follows the literal, some engine that the operations produce, with
  word index in (0, 8) and block counter at least 1, is not restored from its own
  record.\<close>

lemma no_roundtrip_for_any_image:
  "\<exists>s. reachable sample_permutation y s \<and> 0 < word_index s \<and> word_index s < 8
       \<and> block_counter s \<ge> 1
       \<and> (case deserialize sample_permutation y rng (serialize s) of
            (Inl e, t) \<Rightarrow> True
          | (Inr u, t) \<Rightarrow> future_outputs sample_permutation 1 t
                           \<noteq> future_outputs sample_permutation 1 s)"
proof (cases "y = 0")
  case True
  let ?s = "\<lparr>key = replicate 8 1, nonce = [1, 1], block_counter = 5,
       buffer = sample_permutation (replicate 8 0) [0, 0] 0, word_index = 3\<rparr>"
  show ?thesis
  proof (rule exI [of _ ?s], intro conjI)
    show "reachable sample_permutation y ?s" using reachable_after_exception True by simp
    show "case deserialize sample_permutation y rng (serialize ?s) of
            (Inl e, t) \<Rightarrow> True
          | (Inr u, t) \<Rightarrow> future_outputs sample_permutation 1 t
                           \<noteq> future_outputs sample_permutation 1 ?s"
      unfolding True
      by (simp only: restore_after_exception prod.case sum.case outputs_after_exception) simp
  qed simp_all
next
  case False
  let ?s = "\<lparr>key = replicate 8 0, nonce = [0, 0], block_counter = 1,
      buffer = sample_permutation (replicate 8 0) [0, 0] 0, word_index = 1\<rparr>"
  show ?thesis
  proof (rule exI [of _ ?s], intro conjI)
    show "reachable sample_permutation y ?s" by (rule reachable_example)
    show "case deserialize sample_permutation y rng (serialize ?s) of
            (Inl e, t) \<Rightarrow> True
          | (Inr u, t) \<Rightarrow> future_outputs sample_permutation 1 t
                           \<noteq> future_outputs sample_permutation 1 ?s"
      by (simp only: restore_bad_magic [OF False] prod.case sum.case)
  qed simp_all
qed

text \<open>
  Claim C6. Serializing an engine and deserializing the 65-byte record round-trips: for
  every engine state with word index in (0, 8) and block counter at least 1, the restored
  engine produces the future outputs that the original would have produced; and a record
  whose word index is in (0, 8) while its block counter is 0 is rejected instead of being
  restored.

  The code does not do the first. Take the engine with key and nonce zero, block counter 1
  and word index 1, reached by construction and one call of \<^verbatim>\<open>operator()\<close>, and a program
  image that holds \<open>0x63\<close> after the literal \<^verbatim>\<open>"csprng"\<close>: \<^verbatim>\<open>operator>>\<close> rejects the record
  that \<^verbatim>\<open>operator<<\<close> wrote for it with the bad-magic exception and leaves the target
  engine as it was. The same holds for every non-zero byte after the literal
  (\<open>restore_bad_magic\<close>); with a zero byte there the engine that an exception of
  \<^verbatim>\<open>operator>>\<close> left behind is restored with other future outputs
  (\<open>no_roundtrip_for_any_image\<close>). The second part holds (\<open>restore_mid_block_at_zero\<close>).
\<close>

theorem restore_rejects_written_record:
  "deserialize sample_permutation 0x63
      \<lparr>key = replicate 8 1, nonce = [1, 1], block_counter = 5,
       buffer = sample_permutation (replicate 8 1) [1, 1] 4, word_index = 3\<rparr>
      (serialize \<lparr>key = replicate 8 0, nonce = [0, 0], block_counter = 1,
                  buffer = sample_permutation (replicate 8 0) [0, 0] 0, word_index = 1\<rparr>)
   = (Inl BadMagic,
      \<lparr>key = replicate 8 1, nonce = [1, 1], block_counter = 5,
       buffer = sample_permutation (replicate 8 1) [1, 1] 4, word_index = 3\<rparr>)"
  by (simp add: restore_bad_magic)


section \<open>Bounded sampling\<close>

lemma mult_less_iff_ceil:
  fixes x R M :: nat
  assumes R: "0 < R"
  shows "x * R < M \<longleftrightarrow> x < (M + R - 1) div R"
proof -
  have "x < (M + R - 1) div R \<longleftrightarrow> Suc x \<le> (M + R - 1) div R" by auto
  also have "\<dots> \<longleftrightarrow> Suc x * R \<le> M + R - 1"
    using R by (simp only: less_eq_div_iff_mult_less_eq)
  also have "\<dots> \<longleftrightarrow> x * R < M" using R by (cases R) auto
  finally show ?thesis by simp
qed

lemma lemire_count:
  fixes R v N :: nat
  assumes R: "0 < R" and v: "v < R" and RN: "R \<le> N"
  shows "card {x. x < N \<and> N mod R \<le> (x * R) mod N \<and> (x * R) div N = v} = N div R"
proof -
  define q where "q = N div R"
  define t where "t = N mod R"
  define L where "L = v * N + t"
  define c where "c = (L + R - 1) div R"
  have Nqt: "N = q * R + t" by (simp add: q_def t_def)
  have N: "0 < N" using R RN by simp
  have "t < R" using R by (simp add: t_def)
  with RN have tN: "t < N" by simp
  have U: "(v + 1) * N = L + q * R"
    using tN by (simp add: L_def algebra_simps) (simp add: Nqt add.commute)
  have cU: "((v + 1) * N + R - 1) div R = c + q"
  proof -
    define m where "m = L + R - 1"
    have "(v + 1) * N + R - 1 = m + q * R"
      using R unfolding U m_def by arith
    moreover have "(m + q * R) div R = q + m div R"
      using R by (intro div_mult_self1) simp
    ultimately show ?thesis by (simp add: c_def m_def)
  qed
  have win: "N mod R \<le> (x * R) mod N \<and> (x * R) div N = v
      \<longleftrightarrow> L \<le> x * R \<and> x * R < (v + 1) * N" for x
  proof
    assume a: "N mod R \<le> (x * R) mod N \<and> (x * R) div N = v"
    have "x * R = (x * R) div N * N + (x * R) mod N" by simp
    with a have e: "x * R = v * N + (x * R) mod N" by simp
    have "(x * R) mod N < N" using N by simp
    with e a show "L \<le> x * R \<and> x * R < (v + 1) * N"
      by (simp add: L_def t_def)
  next
    assume b: "L \<le> x * R \<and> x * R < (v + 1) * N"
    then have lo: "v * N \<le> x * R" by (simp add: L_def)
    from b have hi: "x * R < Suc v * N" by simp
    have d: "(x * R) div N = v"
      using lo hi N by (intro div_nat_eqI) (simp_all add: mult.commute)
    have "x * R = (x * R) div N * N + (x * R) mod N" by simp
    with d have "x * R = v * N + (x * R) mod N" by simp
    with b have "t \<le> (x * R) mod N" by (simp add: L_def)
    with d show "N mod R \<le> (x * R) mod N \<and> (x * R) div N = v" by (simp add: t_def)
  qed
  define T where "T = (v + 1) * N"
  have cT: "(T + R - 1) div R = c + q" using cU by (simp only: T_def)
  have lower: "L \<le> x * R \<longleftrightarrow> \<not> x < c" for x
    using mult_less_iff_ceil [OF R, of x L] unfolding c_def by linarith
  have upper: "x * R < T \<longleftrightarrow> x < c + q" for x
    using mult_less_iff_ceil [OF R, of x T] unfolding cT .
  have bound: "x < N" if "x * R < T" for x
  proof -
    have "T \<le> R * N" unfolding T_def using v by (intro mult_le_mono1) simp
    with that have "x * R < N * R" by (simp only: mult.commute [of R N])
    then show ?thesis by simp
  qed
  have "x < N \<and> N mod R \<le> (x * R) mod N \<and> (x * R) div N = v \<longleftrightarrow> x \<in> {c..<c + q}" for x
    using win [of x] lower [of x] upper [of x] bound [of x] unfolding T_def atLeastLessThan_iff
    by linarith
  then have "{x. x < N \<and> N mod R \<le> (x * R) mod N \<and> (x * R) div N = v} = {c..<c + q}"
    by blast
  then show ?thesis by (simp add: q_def)
qed

lemma umul128_nat:
  "unat (fst (umul128 a b)) = (unat a * unat b) mod 2 ^ 64"
  "unat (snd (umul128 a b)) = (unat a * unat b) div 2 ^ 64"
proof -
  obtain lo hi where m: "umul128 a b = (lo, hi)" by (cases "umul128 a b")
  note v = umul128_val [OF m]
  have lo: "unat lo < 2 ^ 64" by (rule unat_lt64)
  have "(unat lo + 2 ^ 64 * unat hi) mod 2 ^ 64 = unat lo"
    using lo by (simp del: power_numeral)
  then show "unat (fst (umul128 a b)) = (unat a * unat b) mod 2 ^ 64"
    by (simp only: v m fst_conv)
  have "(unat lo + 2 ^ 64 * unat hi) div 2 ^ 64 = unat hi"
    using lo by (simp del: power_numeral)
  then show "unat (snd (umul128 a b)) = (unat a * unat b) div 2 ^ 64"
    by (simp only: v m snd_conv)
qed

lemma unat_threshold:
  fixes R :: u64
  assumes "R \<noteq> 0"
  shows "unat ((- 1 - R + 1) mod R) = 2 ^ 64 mod unat R"
proof -
  have r: "0 < unat R" "unat R < 2 ^ 64"
    using assms unat_lt64 [of R] by (simp_all add: unat_gt_0)
  have "- 1 - R + 1 = - R" by simp
  moreover have "unat (- R) = 2 ^ 64 - unat R"
    using r unat_sub_if' [of 0 R] by (simp del: power_numeral)
  moreover have "(2 ^ 64 - unat R) mod unat R = 2 ^ 64 mod unat R"
    using r le_mod_geq [of "unat R" "2 ^ 64"] by (simp del: power_numeral)
  ultimately show ?thesis by (simp only: unat_mod)
qed

lemma threshold_less_range:
  fixes R :: u64
  assumes "R \<noteq> 0"
  shows "(- 1 - R + 1) mod R < R"
  using assms by (simp add: word_less_nat_alt unat_mod unat_gt_0)

lemma redraw_rejected:
  assumes "l < t"
  shows "redraw R t (l, h) [] = None"
    and "redraw R t (l, h) (x # ds) = redraw R t (umul128 x R) ds"
  using assms by simp_all

lemma redraw_accepted: "\<not> l < t \<Longrightarrow> redraw R t (l, h) ds = Some ((l, h), ds)"
  by (cases ds) simp_all

text \<open>For proper ranges: the call as a function of the first draw.\<close>

lemma unbiased_proper:
  assumes lt: "lo < hi" and R: "hi - lo + 1 \<noteq> 0"
  defines "R \<equiv> hi - lo + 1"
  defines "t \<equiv> (- 1 - R + 1) mod R"
  shows "unbiased lo hi [] = None"
    and "unbiased lo hi (x # ds) =
      (if t \<le> fst (umul128 x R) then Some (lo + snd (umul128 x R), ds) else unbiased lo hi ds)"
proof -
  have ne: "lo \<noteq> hi" "\<not> lo > hi" using lt by simp_all
  have R0: "R \<noteq> 0" using R by (simp add: R_def)
  have tR: "t < R" unfolding t_def by (rule threshold_less_range [OF R0])
  have unf: "unbiased lo hi zs =
    (case zs of [] \<Rightarrow> None
     | x # ds' \<Rightarrow>
        (let (l, h) = umul128 x R
         in if l < R
            then (case redraw R t (l, h) ds' of None \<Rightarrow> None
                  | Some ((l', h'), rest) \<Rightarrow> Some (lo + h', rest))
            else Some (lo + h, ds')))" for zs
    using ne R0 unfolding R_def t_def
    by (cases zs) (simp_all add: unbiased_def Let_def split: prod.splits)
  show "unbiased lo hi [] = None" by (simp add: unf)
  have rej: "(case redraw R t (l, h) ds of None \<Rightarrow> None
              | Some ((l', h'), rest) \<Rightarrow> Some (lo + h', rest)) = unbiased lo hi ds"
    if "l < t" for l h ds
    using that
  proof (induction ds arbitrary: l h)
    case Nil
    then show ?case by (simp add: unf)
  next
    case (Cons y ds)
    obtain l1 h1 where m: "umul128 y R = (l1, h1)" by (cases "umul128 y R")
    show ?case
    proof (cases "l1 < t")
      case True
      then have "l1 < R" "\<not> t \<le> l1" using tR by simp_all
      with True Cons.IH [OF True, of h1] Cons.prems show ?thesis
        by (simp add: unf [of "y # ds"] m)
    next
      case False
      with Cons.prems show ?thesis
        by (simp add: unf [of "y # ds"] m redraw_accepted)
    qed
  qed
  obtain l h where m: "umul128 x R = (l, h)" by (cases "umul128 x R")
  show "unbiased lo hi (x # ds) =
      (if t \<le> fst (umul128 x R) then Some (lo + snd (umul128 x R), ds) else unbiased lo hi ds)"
  proof (cases "l < t")
    case True
    then have "l < R" "\<not> t \<le> l" using tR by simp_all
    with True rej [OF True, of h ds] show ?thesis by (simp add: unf [of "x # ds"] m)
  next
    case False
    then have "t \<le> l" by simp
    with False show ?thesis by (simp add: unf [of "x # ds"] m redraw_accepted)
  qed
qed

lemma card_word_by_unat:
  "card {x :: u64. Q (unat x)} = card {n. n < 2 ^ 64 \<and> Q n}"
proof -
  have "unat ` {x :: u64. Q (unat x)} = {n. n < 2 ^ 64 \<and> Q n}"
  proof (intro set_eqI iffI)
    fix n assume "n \<in> unat ` {x :: u64. Q (unat x)}"
    then show "n \<in> {n. n < 2 ^ 64 \<and> Q n}" using unat_lt64 by auto
  next
    fix n assume "n \<in> {n. n < 2 ^ 64 \<and> Q n}"
    then have n: "n < 2 ^ 64" "Q n" by simp_all
    then have "unat (of_nat n :: u64) = n" by (simp add: unat_of_nat)
    with n(2) show "n \<in> unat ` {x :: u64. Q (unat x)}" by (metis (mono_tags) imageI mem_Collect_eq)
  qed
  moreover have "inj_on unat {x :: u64. Q (unat x)}"
    by (rule inj_onI) (simp add: word_unat_eq_iff)
  ultimately show ?thesis using card_image by metis
qed

lemma unat_range:
  fixes lo hi :: u64
  assumes le: "lo \<le> hi" and R: "hi - lo + 1 \<noteq> 0"
  shows "unat (hi - lo + 1) = unat hi - unat lo + 1" and "unat lo \<le> unat hi"
proof -
  show ul: "unat lo \<le> unat hi" using le by (simp add: word_le_nat_alt)
  have "hi - lo \<noteq> - 1" using R by (simp add: eq_neg_iff_add_eq_0)
  from unat_succ64 [OF this] show "unat (hi - lo + 1) = unat hi - unat lo + 1"
    using le by (simp add: unat_sub)
qed

lemma unat_high_less:
  fixes x R :: u64
  assumes "R \<noteq> 0"
  shows "unat (snd (umul128 x R)) < unat R"
proof -
  have "unat x * unat R < 2 ^ 64 * unat R"
    using unat_lt64 [of x] assms by (simp add: unat_gt_0 del: power_numeral)
  then have "(unat x * unat R) div 2 ^ 64 < unat R"
    by (simp add: less_mult_imp_div_less mult.commute del: power_numeral)
  then show ?thesis by (simp only: umul128_nat)
qed

lemma offset_in_range:
  fixes lo hi h :: u64
  assumes le: "lo \<le> hi" and R: "hi - lo + 1 \<noteq> 0" and h: "unat h < unat (hi - lo + 1)"
  shows "unat (lo + h) = unat lo + unat h" and "lo \<le> lo + h" and "lo + h \<le> hi"
proof -
  note r = unat_range [OF le R]
  have "unat lo + unat h \<le> unat hi" using h r by simp
  moreover have "unat hi < 2 ^ 64" by (rule unat_lt64)
  ultimately have s: "unat lo + unat h < 2 ^ 64" by simp
  then show u: "unat (lo + h) = unat lo + unat h"
    by (simp add: unat_word_ariths del: power_numeral)
  show "lo \<le> lo + h" by (simp add: word_le_nat_alt u)
  show "lo + h \<le> hi" using h r by (simp add: word_le_nat_alt u)
qed

lemma unbiased_swap: "unbiased lo hi ds = unbiased hi lo ds"
proof -
  consider "lo < hi" | "lo = hi" | "hi < lo" using linorder_less_linear by blast
  then show ?thesis
  proof cases
    case 1
    then have "\<not> hi < lo" by simp
    with 1 show ?thesis by (simp add: unbiased_def)
  next
    case 2
    then show ?thesis by simp
  next
    case 3
    then have "\<not> lo < hi" by simp
    with 3 show ?thesis by (simp add: unbiased_def)
  qed
qed

lemma unbiased_same: "unbiased lo lo ds = Some (lo, ds)"
  by (simp add: unbiased_def)

lemma unbiased_full_range:
  assumes lt: "lo < hi" and R: "hi - lo + 1 = 0"
  shows "unbiased lo hi [] = None" and "unbiased lo hi (x # ds) = Some (x, ds)"
    and "lo = 0" and "hi = - 1"
proof -
  have ne: "lo \<noteq> hi" "\<not> lo > hi" using lt by simp_all
  show "unbiased lo hi [] = None" "unbiased lo hi (x # ds) = Some (x, ds)"
    using ne R by (simp_all add: unbiased_def Let_def)
  from R have e: "hi - lo = - 1" by (simp add: eq_neg_iff_add_eq_0)
  have "unat (hi - lo) = unat hi - unat lo" using lt by (simp add: unat_sub)
  with e have "unat hi - unat lo = 2 ^ 64 - 1" by (simp add: unat_max64)
  moreover have "unat hi < 2 ^ 64" by (rule unat_lt64)
  moreover have "unat lo < unat hi" using lt by (simp add: word_less_nat_alt)
  ultimately have "unat lo = 0 \<and> unat hi = 2 ^ 64 - 1" by arith
  then have "unat lo = 0" "unat hi = unat (- 1 :: u64)"
    by (simp_all add: unat_max64 del: power_numeral)
  then show "lo = 0" "hi = - 1" by (simp_all only: word_unat_eq_iff unat_eq_zero)
qed

lemma unbiased_of_draw_cases:
  shows "lo = hi \<Longrightarrow> unbiased_of_draw lo hi x = Some lo"
    and "lo < hi \<Longrightarrow> hi - lo + 1 = 0 \<Longrightarrow> unbiased_of_draw lo hi x = Some x"
    and "lo < hi \<Longrightarrow> hi - lo + 1 \<noteq> 0 \<Longrightarrow> unbiased_of_draw lo hi x =
           (if (- 1 - (hi - lo + 1) + 1) mod (hi - lo + 1) \<le> fst (umul128 x (hi - lo + 1))
            then Some (lo + snd (umul128 x (hi - lo + 1))) else None)"
    and "unbiased_of_draw lo hi x = unbiased_of_draw hi lo x"
proof -
  show "lo = hi \<Longrightarrow> unbiased_of_draw lo hi x = Some lo"
    by (simp add: unbiased_of_draw_def unbiased_same)
  show "lo < hi \<Longrightarrow> hi - lo + 1 = 0 \<Longrightarrow> unbiased_of_draw lo hi x = Some x"
    by (simp add: unbiased_of_draw_def unbiased_full_range)
  show "lo < hi \<Longrightarrow> hi - lo + 1 \<noteq> 0 \<Longrightarrow> unbiased_of_draw lo hi x =
           (if (- 1 - (hi - lo + 1) + 1) mod (hi - lo + 1) \<le> fst (umul128 x (hi - lo + 1))
            then Some (lo + snd (umul128 x (hi - lo + 1))) else None)"
    by (simp add: unbiased_of_draw_def unbiased_proper)
  show "unbiased_of_draw lo hi x = unbiased_of_draw hi lo x"
    unfolding unbiased_of_draw_def by (simp only: unbiased_swap [of lo hi])
qed

lemma unbiased_step_lt:
  assumes lt: "lo < hi"
  shows "unbiased lo hi [] = None"
    and "unbiased lo hi (x # ds) =
      (case unbiased_of_draw lo hi x of Some v \<Rightarrow> Some (v, ds) | None \<Rightarrow> unbiased lo hi ds)"
proof -
  show "unbiased lo hi [] = None"
    using unbiased_full_range(1) [OF lt] unbiased_proper(1) [OF lt] by blast
  show "unbiased lo hi (x # ds) =
      (case unbiased_of_draw lo hi x of Some v \<Rightarrow> Some (v, ds) | None \<Rightarrow> unbiased lo hi ds)"
  proof (cases "hi - lo + 1 = 0")
    case True
    then show ?thesis
      by (simp add: unbiased_of_draw_cases(2) [OF lt] unbiased_full_range(2) [OF lt])
  next
    case False
    then show ?thesis
      by (simp add: unbiased_of_draw_cases(3) [OF lt] unbiased_proper(2) [OF lt])
  qed
qed

lemma unbiased_step:
  assumes ne: "lo \<noteq> hi"
  shows "unbiased lo hi [] = None"
    and "unbiased lo hi (x # ds) =
      (case unbiased_of_draw lo hi x of Some v \<Rightarrow> Some (v, ds) | None \<Rightarrow> unbiased lo hi ds)"
proof -
  from ne consider "lo < hi" | "hi < lo" using linorder_less_linear by blast
  then have "unbiased lo hi [] = None
    \<and> unbiased lo hi (x # ds) =
      (case unbiased_of_draw lo hi x of Some v \<Rightarrow> Some (v, ds) | None \<Rightarrow> unbiased lo hi ds)"
  proof cases
    case 1
    then show ?thesis using unbiased_step_lt [OF 1] by simp
  next
    case 2
    from unbiased_step_lt [OF 2] show ?thesis
      by (simp only: unbiased_swap [of lo hi] unbiased_of_draw_cases(4) [of lo hi])
  qed
  then show "unbiased lo hi [] = None"
    and "unbiased lo hi (x # ds) =
      (case unbiased_of_draw lo hi x of Some v \<Rightarrow> Some (v, ds) | None \<Rightarrow> unbiased lo hi ds)"
    by simp_all
qed

lemma unbiased_of_draw_bounds:
  assumes le: "lo \<le> hi" and v: "unbiased_of_draw lo hi x = Some v"
  shows "lo \<le> v \<and> v \<le> hi"
proof (cases "lo = hi")
  case True
  with v show ?thesis by (simp add: unbiased_of_draw_cases(1))
next
  case False
  with le have lt: "lo < hi" by simp
  show ?thesis
  proof (cases "hi - lo + 1 = 0")
    case True
    from unbiased_full_range(3,4) [OF lt True] show ?thesis by simp
  next
    case R: False
    from v have "v = lo + snd (umul128 x (hi - lo + 1))"
      by (simp add: unbiased_of_draw_cases(3) [OF lt R] split: if_splits)
    with offset_in_range(2,3) [OF le R unat_high_less [OF R, of x]] show ?thesis by simp
  qed
qed

lemma unbiased_count:
  assumes le: "lo \<le> hi" and v: "lo \<le> v" "v \<le> hi"
  shows "card {x. unbiased_of_draw lo hi x = Some v}
       = (if hi - lo + 1 = 0 then 1 else 2 ^ 64 div unat (hi - lo + 1))"
proof (cases "lo = hi")
  case True
  with v have "v = lo" by simp
  with True have "{x. unbiased_of_draw lo hi x = Some v} = UNIV"
    by (simp add: unbiased_of_draw_cases(1))
  then have "card {x. unbiased_of_draw lo hi x = Some v} = 2 ^ 64"
    by (simp add: card_word)
  with True show ?thesis by simp
next
  case False
  with le have lt: "lo < hi" by simp
  show ?thesis
  proof (cases "hi - lo + 1 = 0")
    case True
    have "{x. unbiased_of_draw lo hi x = Some v} = {v}"
      by (auto simp add: unbiased_of_draw_cases(2) [OF lt True])
    with True show ?thesis by simp
  next
    case R: False
    define r where "r = unat (hi - lo + 1)"
    define d where "d = unat v - unat lo"
    note ur = unat_range [OF le R, folded r_def]
    have uv: "unat lo \<le> unat v" "unat v \<le> unat hi" using v by (simp_all add: word_le_nat_alt)
    have r0: "0 < r" using ur by simp
    have dr: "d < r" using ur uv by (simp add: d_def)
    have rN: "r \<le> 2 ^ 64" unfolding r_def using unat_lt64 [of "hi - lo + 1"] by simp
    have acc: "unbiased_of_draw lo hi x = Some v
        \<longleftrightarrow> 2 ^ 64 mod r \<le> (unat x * r) mod 2 ^ 64 \<and> (unat x * r) div 2 ^ 64 = d" for x
    proof -
      define h where "h = snd (umul128 x (hi - lo + 1))"
      have uh: "unat h = (unat x * r) div 2 ^ 64" by (simp only: h_def umul128_nat r_def)
      have "unat h < unat (hi - lo + 1)" unfolding h_def by (rule unat_high_less [OF R])
      from offset_in_range(1) [OF le R this]
      have "lo + h = v \<longleftrightarrow> unat lo + unat h = unat v" by (simp add: word_unat_eq_iff)
      also have "\<dots> \<longleftrightarrow> unat h = d" using uv by (auto simp add: d_def)
      finally have e: "lo + h = v \<longleftrightarrow> (unat x * r) div 2 ^ 64 = d" by (simp only: uh)
      have t: "(- 1 - (hi - lo + 1) + 1) mod (hi - lo + 1) \<le> fst (umul128 x (hi - lo + 1))
          \<longleftrightarrow> 2 ^ 64 mod r \<le> (unat x * r) mod 2 ^ 64"
        by (simp only: word_le_nat_alt unat_threshold [OF R] umul128_nat r_def)
      show ?thesis
        unfolding unbiased_of_draw_cases(3) [OF lt R] t using e by (auto simp add: h_def)
    qed
    have "card {x. unbiased_of_draw lo hi x = Some v}
        = card {x :: u64. 2 ^ 64 mod r \<le> (unat x * r) mod 2 ^ 64 \<and> (unat x * r) div 2 ^ 64 = d}"
      by (simp only: acc)
    also have "\<dots> = card {n. n < 2 ^ 64 \<and> 2 ^ 64 mod r \<le> (n * r) mod 2 ^ 64 \<and> (n * r) div 2 ^ 64 = d}"
      by (rule card_word_by_unat [of "\<lambda>n. 2 ^ 64 mod r \<le> (n * r) mod 2 ^ 64 \<and> (n * r) div 2 ^ 64 = d"])
    also have "\<dots> = 2 ^ 64 div r" by (rule lemire_count [OF r0 dr rN])
    finally show ?thesis using R by (simp only: r_def if_False)
  qed
qed

lemma unbiased_bounds:
  assumes le: "lo \<le> hi" and r: "unbiased lo hi ds = Some (v, rest)"
  shows "lo \<le> v \<and> v \<le> hi"
proof (cases "lo = hi")
  case True
  with r show ?thesis by (simp add: unbiased_same)
next
  case False
  from r show ?thesis
  proof (induction ds)
    case Nil
    then show ?case by (simp add: unbiased_step(1) [OF False])
  next
    case (Cons x ds)
    show ?case
    proof (cases "unbiased_of_draw lo hi x")
      case None
      with Cons show ?thesis by (simp add: unbiased_step(2) [OF False])
    next
      case (Some w)
      with Cons.prems have "w = v" by (simp add: unbiased_step(2) [OF False])
      with Some unbiased_of_draw_bounds [OF le, of x v] show ?thesis by simp
    qed
  qed
qed

lemma unbiased_None_iff:
  assumes ne: "lo \<noteq> hi"
  shows "unbiased lo hi ds = None \<longleftrightarrow> (\<forall>x \<in> set ds. unbiased_of_draw lo hi x = None)"
  by (induction ds) (auto simp add: unbiased_step [OF ne] split: option.splits)

lemma accepted_draw_exists: "\<exists>x. unbiased_of_draw lo hi x \<noteq> None"
proof -
  have ex: "\<exists>x. unbiased_of_draw a b x \<noteq> None" if ab: "a \<le> b" for a b :: u64
  proof -
    have c: "card {x. unbiased_of_draw a b x = Some a}
        = (if b - a + 1 = 0 then 1 else 2 ^ 64 div unat (b - a + 1))"
      using ab by (intro unbiased_count) simp_all
    have "0 < card {x. unbiased_of_draw a b x = Some a}"
    proof (cases "b - a + 1 = 0")
      case True
      with c show ?thesis by simp
    next
      case False
      then have "0 < unat (b - a + 1)" by (simp add: unat_gt_0)
      moreover have "unat (b - a + 1) \<le> 2 ^ 64" using unat_lt64 [of "b - a + 1"] by simp
      ultimately have "0 < 2 ^ 64 div unat (b - a + 1)" by (simp add: div_greater_zero_iff del: power_numeral)
      with c False show ?thesis by (simp del: power_numeral)
    qed
    then have "{x. unbiased_of_draw a b x = Some a} \<noteq> {}" by (metis card.empty less_numeral_extra(3))
    then show ?thesis by auto
  qed
  show ?thesis
  proof (cases "lo \<le> hi")
    case True
    then show ?thesis by (rule ex)
  next
    case False
    then have "hi \<le> lo" by simp
    from ex [OF this] show ?thesis by (simp only: unbiased_of_draw_cases(4) [of lo hi])
  qed
qed

text \<open>
  Claim C4. For \<open>lo \<le> hi\<close>, \<^verbatim>\<open>unbiased(lo, hi)\<close> returns a value in \<open>[lo, hi]\<close>, and each
  value of \<open>[lo, hi]\<close> is produced by exactly the same number of accepted 64-bit draws:
  by \<open>2 ^ 64 div R\<close> of them for the range \<open>R = hi - lo + 1\<close>, whether or not \<open>R\<close> divides
  \<open>2 ^ 64\<close>, and by one draw when \<open>R\<close> wraps to 0 and the draw is passed through. A
  rejected draw is discarded and the next one decides, so with uniform raw draws the result
  is exactly uniform. The one definition stands for the member functions of both classes.
\<close>

theorem unbiased_in_range_and_uniform:
  assumes le: "lo \<le> hi"
  shows "(\<forall>ds v rest. unbiased lo hi ds = Some (v, rest) \<longrightarrow> lo \<le> v \<and> v \<le> hi)
       \<and> (\<forall>v. lo \<le> v \<and> v \<le> hi \<longrightarrow>
             card {x. unbiased_of_draw lo hi x = Some v}
               = (if hi - lo + 1 = 0 then 1 else 2 ^ 64 div unat (hi - lo + 1)))
       \<and> (\<forall>x ds. lo \<noteq> hi \<longrightarrow>
             unbiased lo hi (x # ds) =
               (case unbiased_of_draw lo hi x of
                  Some v \<Rightarrow> Some (v, ds) | None \<Rightarrow> unbiased lo hi ds))"
  using unbiased_bounds [OF le] unbiased_count [OF le] unbiased_step(2) by blast

theorem unbiased_in_range_and_uniform_witness:
  "(3 :: u64) \<le> 5
   \<and> card {x. unbiased_of_draw 3 5 x = Some 4} = 2 ^ 64 div 3
   \<and> unbiased 3 5 [0, 1, 7] = Some (3, [7])"
proof -
  have le: "(3 :: u64) \<le> 5" by simp
  note t = unbiased_in_range_and_uniform [OF le]
  have "card {x. unbiased_of_draw 3 5 x = Some 4} = 2 ^ 64 div 3"
    using t by simp
  moreover have "unbiased 3 5 [0, 1, 7] = Some (3, [7])"
    by (simp add: unbiased_def umul128_def Let_def)
  ultimately show ?thesis using le by blast
qed

text \<open>
  Claim C10. \<^verbatim>\<open>unbiased\<close> accepts every pair of arguments: with \<open>lo > hi\<close> it behaves as
  \<^verbatim>\<open>unbiased(hi, lo)\<close>; with \<open>lo = hi\<close> it returns the bound and consumes no draw; every
  result lies between the smaller and the larger argument; and the call returns as soon as
  the source delivers an accepted draw, which exists for every pair, so that it fails to
  return only when every draw delivered is rejected.
\<close>

theorem unbiased_accepts_every_pair:
  "unbiased lo hi ds = unbiased hi lo ds
   \<and> unbiased lo lo ds = Some (lo, ds)
   \<and> (\<forall>v rest. unbiased lo hi ds = Some (v, rest) \<longrightarrow> min lo hi \<le> v \<and> v \<le> max lo hi)
   \<and> (unbiased lo hi ds = None \<longleftrightarrow> lo \<noteq> hi \<and> (\<forall>x \<in> set ds. unbiased_of_draw lo hi x = None))
   \<and> (\<exists>x. unbiased_of_draw lo hi x \<noteq> None)"
proof -
  have b: "min lo hi \<le> v \<and> v \<le> max lo hi" if r: "unbiased lo hi ds = Some (v, rest)" for v rest
  proof (cases "lo \<le> hi")
    case True
    with unbiased_bounds [OF True r] show ?thesis by (simp add: min_def max_def)
  next
    case False
    then have hl: "hi \<le> lo" by simp
    from r have "unbiased hi lo ds = Some (v, rest)" by (simp only: unbiased_swap [of hi lo])
    from unbiased_bounds [OF hl this] False show ?thesis by (simp add: min_def max_def)
  qed
  have n: "unbiased lo hi ds = None \<longleftrightarrow> lo \<noteq> hi \<and> (\<forall>x \<in> set ds. unbiased_of_draw lo hi x = None)"
  proof (cases "lo = hi")
    case True
    then show ?thesis by (simp add: unbiased_same)
  next
    case False
    with unbiased_None_iff [OF False, of ds] show ?thesis by simp
  qed
  from b n unbiased_swap [of lo hi ds] unbiased_same [of lo ds] accepted_draw_exists [of lo hi]
  show ?thesis by blast
qed

theorem unbiased_accepts_every_pair_witness:
  "unbiased 5 3 [0, 1, 7] = unbiased 3 5 [0, 1, 7]
   \<and> unbiased 5 5 [0, 1, 7] = Some (5, [0, 1, 7])
   \<and> unbiased 5 3 [0, 1, 7] = Some (3, [7])
   \<and> min (5 :: u64) 3 \<le> 3 \<and> (3 :: u64) \<le> max 5 3
   \<and> unbiased 5 3 [0] = None \<and> unbiased_of_draw 5 3 0 = None"
proof -
  note t = unbiased_accepts_every_pair [of 5 3 "[0, 1, 7]"]
  have e: "unbiased 5 3 [0, 1, 7] = Some (3, [7])"
    by (simp add: unbiased_def umul128_def Let_def)
  have d: "unbiased_of_draw 5 3 0 = None"
    by (simp add: unbiased_of_draw_def unbiased_def umul128_def Let_def)
  moreover have "(3 :: u64) \<noteq> 5" "\<forall>x \<in> set [0 :: u64]. x = 0" by simp_all
  ultimately have "unbiased 5 3 [0] = None"
    using unbiased_accepts_every_pair [of 5 3 "[0]"] by metis
  with t e d show ?thesis by simp
qed

end
